theory Spec2Isabelle
  imports Main
begin

section \<open>Python values used by main.py\<close>

text \<open>
  A Python \<open>str\<close> is a sequence of code points. In this development a \<open>char\<close> stands
  for the code point of the same number, so the strings of the model are the Python
  strings over U+0000..U+00FF. Exceptions are values: a function that may raise returns
  \<open>exn + 'a\<close>, with \<open>Inl\<close> for the exception.
\<close>

datatype exn = ValueError string | IndexError | KeyError | OverflowError string

definition in_range :: "char \<Rightarrow> char \<Rightarrow> char \<Rightarrow> bool" where
  "in_range lo hi c = ((of_char lo :: nat) \<le> of_char c \<and> (of_char c :: nat) \<le> of_char hi)"

text \<open>An ASCII decimal digit: the class \<open>[0-9]\<close>.\<close>

definition ascii_digit :: "char \<Rightarrow> bool" where
  "ascii_digit c = in_range (CHR ''0'') (CHR ''9'') c"

text \<open>
  \<open>\d\<close> in a pattern over \<open>str\<close> matches every Unicode decimal digit (the characters of
  category Nd, of any script), and \<open>int\<close> reads each of them as its digit value. Below
  U+0100 the decimal digits are 0-9; a birthday with a decimal digit of another script is
  outside the strings of this model.
\<close>

definition re_digit :: "char \<Rightarrow> bool" where
  "re_digit c = in_range (CHR ''0'') (CHR ''9'') c"

text \<open>
  \<open>str.isdigit\<close>: every character has the Unicode property Numeric_Type Digit or
  Decimal, and there is at least one character. Below U+0100 these are 0-9 and the
  superscripts U+00B2, U+00B3 and U+00B9.
\<close>

definition isdigit_char :: "char \<Rightarrow> bool" where
  "isdigit_char c = (ascii_digit c \<or> c = CHR 0xB2 \<or> c = CHR 0xB3 \<or> c = CHR 0xB9)"

definition isdigit :: "string \<Rightarrow> bool" where
  "isdigit s = (s \<noteq> [] \<and> list_all isdigit_char s)"

text \<open>\<open>str(n)\<close> for a natural number, and \<open>int(s)\<close> for a string of decimal digits
  after optional leading blanks.\<close>

definition digit_char :: "nat \<Rightarrow> char" where
  "digit_char n = char_of (48 + n)"

fun str_nat :: "nat \<Rightarrow> string" where
  "str_nat n = (if n < 10 then [digit_char n] else str_nat (n div 10) @ [digit_char (n mod 10)])"

declare str_nat.simps [simp del]

definition str_int :: "int \<Rightarrow> string" where
  "str_int i = (if i < 0 then CHR ''-'' # str_nat (nat (- i)) else str_nat (nat i))"

definition digit_val :: "char \<Rightarrow> int" where
  "digit_val c = int (of_char c) - 48"

definition py_int :: "string \<Rightarrow> int" where
  "py_int s = foldl (\<lambda>a c. 10 * a + digit_val c) 0 (dropWhile (\<lambda>c. c = CHR '' '') s)"

section \<open>Field, Name, Phone\<close>

text \<open>
  \<open>Field\<close> wraps one value; \<open>Name\<close>, \<open>Phone\<close> and \<open>Birthday\<close> add nothing but the check
  in the constructor, so a field is modelled by its \<open>value\<close>.
\<close>

definition Phone :: "string \<Rightarrow> exn + string" where
  "Phone v =
     (if \<not> (isdigit v \<and> length v = 10)
      then Inl (ValueError ''Phone number must contain exactly 10 digits'')
      else Inr v)"

section \<open>datetime.date\<close>

record date =
  year :: int
  month :: int
  day :: int

definition is_leap :: "int \<Rightarrow> bool" where
  "is_leap y = (y mod 4 = 0 \<and> (y mod 100 \<noteq> 0 \<or> y mod 400 = 0))"

definition DAYS_IN_MONTH :: "int list" where
  "DAYS_IN_MONTH = [31, 28, 31, 30, 31, 30, 31, 31, 30, 31, 30, 31]"

definition DAYS_BEFORE_MONTH :: "int list" where
  "DAYS_BEFORE_MONTH = [0, 31, 59, 90, 120, 151, 181, 212, 243, 273, 304, 334]"

definition days_in_month :: "int \<Rightarrow> int \<Rightarrow> int" where
  "days_in_month y m = (if m = 2 \<and> is_leap y then 29 else DAYS_IN_MONTH ! nat (m - 1))"

definition days_before_year :: "int \<Rightarrow> int" where
  "days_before_year y = (y - 1) * 365 + (y - 1) div 4 - (y - 1) div 100 + (y - 1) div 400"

definition days_before_month :: "int \<Rightarrow> int \<Rightarrow> int" where
  "days_before_month y m = DAYS_BEFORE_MONTH ! nat (m - 1) + (if m > 2 \<and> is_leap y then 1 else 0)"

definition toordinal :: "date \<Rightarrow> int" where
  "toordinal d = days_before_year (year d) + days_before_month (year d) (month d) + day d"

text \<open>\<open>date.weekday()\<close>: Monday is 0, Saturday 5, Sunday 6.\<close>

definition weekday :: "date \<Rightarrow> int" where
  "weekday d = (toordinal d + 6) mod 7"

definition MINYEAR :: int where "MINYEAR = 1"
definition MAXYEAR :: int where "MAXYEAR = 9999"

text \<open>The constructor \<open>date(year, month, day)\<close> checks its fields in this order.\<close>

definition mk_date :: "int \<Rightarrow> int \<Rightarrow> int \<Rightarrow> exn + date" where
  "mk_date y m d =
     (if \<not> (MINYEAR \<le> y \<and> y \<le> MAXYEAR)
      then Inl (ValueError (''year '' @ str_int y @ '' is out of range''))
      else if \<not> (1 \<le> m \<and> m \<le> 12)
      then Inl (ValueError ''month must be in 1..12'')
      else if \<not> (1 \<le> d \<and> d \<le> days_in_month y m)
      then Inl (ValueError ''day is out of range for month'')
      else Inr \<lparr>year = y, month = m, day = d\<rparr>)"

text \<open>\<open>d.replace(year=y)\<close> builds a new date from the other two fields.\<close>

definition replace_year :: "date \<Rightarrow> int \<Rightarrow> exn + date" where
  "replace_year d y = mk_date y (month d) (day d)"

text \<open>\<open>a < b\<close> on dates compares year, month and day in this order.\<close>

definition date_less :: "date \<Rightarrow> date \<Rightarrow> bool" where
  "date_less a b =
     (year a < year b \<or> (year a = year b \<and>
       (month a < month b \<or> (month a = month b \<and> day a < day b))))"

text \<open>
  \<open>d + timedelta(days=n)\<close> for \<open>n \<ge> 0\<close>: the date \<open>n\<close> days later, OverflowError when that
  is after the year 9999. The model walks the calendar one day at a time.
\<close>

definition next_day :: "date \<Rightarrow> date" where
  "next_day d =
     (if day d < days_in_month (year d) (month d) then d\<lparr>day := day d + 1\<rparr>
      else if month d < 12 then d\<lparr>month := month d + 1, day := 1\<rparr>
      else \<lparr>year = year d + 1, month = 1, day = 1\<rparr>)"

fun add_days :: "date \<Rightarrow> nat \<Rightarrow> exn + date" where
  "add_days d 0 = Inr d"
| "add_days d (Suc n) =
     (if year (next_day d) > MAXYEAR then Inl (OverflowError ''date value out of range'')
      else add_days (next_day d) n)"

text \<open>
  \<open>d.strftime("%d.%m.%Y")\<close>: day and month padded to two digits; the year as the C
  library prints it (glibc does not pad years below 1000).
\<close>

definition pad2 :: "int \<Rightarrow> string" where
  "pad2 i = (if i < 10 then CHR ''0'' # str_int i else str_int i)"

definition strftime :: "date \<Rightarrow> string" where
  "strftime d = pad2 (day d) @ ''.'' @ pad2 (month d) @ ''.'' @ str_int (year d)"

section \<open>datetime.strptime(value, "%d.%m.%Y")\<close>

text \<open>
  The format compiles to the regular expression
  \<^verbatim>\<open>(3[0-1]|[1-2]\d|0[1-9]|[1-9]| [1-9])\.(1[0-2]|0[1-9]|[1-9])\.(\d\d\d\d)\<close>,
  matched at the start of the string. A matcher returns every way to match a prefix,
  as (matched text, rest), in the order in which backtracking tries them.
\<close>

fun one :: "(char \<Rightarrow> bool) \<Rightarrow> string \<Rightarrow> (string \<times> string) list" where
  "one p (a # r) = (if p a then [([a], r)] else [])"
| "one p [] = []"

fun two :: "(char \<Rightarrow> bool) \<Rightarrow> (char \<Rightarrow> bool) \<Rightarrow> string \<Rightarrow> (string \<times> string) list" where
  "two p q (a # b # r) = (if p a \<and> q b then [([a, b], r)] else [])"
| "two p q _ = []"

definition re_d :: "string \<Rightarrow> (string \<times> string) list" where
  "re_d s =
     two ((=) (CHR ''3'')) (in_range (CHR ''0'') (CHR ''1'')) s @
     two (in_range (CHR ''1'') (CHR ''2'')) re_digit s @
     two ((=) (CHR ''0'')) (in_range (CHR ''1'') (CHR ''9'')) s @
     one (in_range (CHR ''1'') (CHR ''9'')) s @
     two ((=) (CHR '' '')) (in_range (CHR ''1'') (CHR ''9'')) s"

definition re_m :: "string \<Rightarrow> (string \<times> string) list" where
  "re_m s =
     two ((=) (CHR ''1'')) (in_range (CHR ''0'') (CHR ''2'')) s @
     two ((=) (CHR ''0'')) (in_range (CHR ''1'') (CHR ''9'')) s @
     one (in_range (CHR ''1'') (CHR ''9'')) s"

definition re_Y :: "string \<Rightarrow> (string \<times> string) list" where
  "re_Y s =
     [(a @ b, r'). (a, r) \<leftarrow> two re_digit re_digit s,
                   (b, r') \<leftarrow> two re_digit re_digit r]"

definition re_dot :: "string \<Rightarrow> (string \<times> string) list" where
  "re_dot s = one ((=) (CHR ''.'')) s"

definition re_match :: "string \<Rightarrow> (string \<times> string \<times> string \<times> string) list" where
  "re_match s =
     [(d, m, y, r5). (d, r1) \<leftarrow> re_d s, (x1, r2) \<leftarrow> re_dot r1, (m, r3) \<leftarrow> re_m r2,
                     (x2, r4) \<leftarrow> re_dot r3, (y, r5) \<leftarrow> re_Y r4]"

text \<open>
  \<open>strptime\<close> takes the first match, refuses text left over after it, and builds the
  date. In the two messages that quote the input, \<open>repr\<close> is written as plain quotes.
\<close>

definition strptime :: "string \<Rightarrow> exn + date" where
  "strptime s =
     (case re_match s of
        [] \<Rightarrow> Inl (ValueError (''time data '' @ [CHR 0x27] @ s @ [CHR 0x27] @
                               '' does not match format '' @ [CHR 0x27] @ ''%d.%m.%Y'' @ [CHR 0x27]))
      | (d, m, y, rest) # _ \<Rightarrow>
          if rest \<noteq> [] then Inl (ValueError (''unconverted data remains: '' @ rest))
          else mk_date (py_int y) (py_int m) (py_int d))"

section \<open>Birthday\<close>

definition Birthday :: "string \<Rightarrow> exn + string" where
  "Birthday v =
     (case strptime v of
        Inl (ValueError _) \<Rightarrow> Inl (ValueError ''Invalid date format. Use DD.MM.YYYY'')
      | Inl e \<Rightarrow> Inl e
      | Inr _ \<Rightarrow> Inr v)"

section \<open>Record\<close>

record Record =
  name :: string
  phones :: "string list"
  birthday :: "string option"

text \<open>
  A method that changes \<open>self\<close> returns the exception it raised, if any, and the record
  as it is after the call. \<open>Record_init\<close> is \<open>Record.__init__\<close> and \<open>str_Record\<close> is
  \<open>Record.__str__\<close>.
\<close>

definition Record_init :: "string \<Rightarrow> Record" where
  "Record_init n = \<lparr>name = n, phones = [], birthday = None\<rparr>"

definition add_phone :: "Record \<Rightarrow> string \<Rightarrow> exn option \<times> Record" where
  "add_phone self phone =
     (case Phone phone of
        Inl e \<Rightarrow> (Some e, self)
      | Inr p \<Rightarrow> (None, self\<lparr>phones := phones self @ [p]\<rparr>))"

definition remove_phone :: "Record \<Rightarrow> string \<Rightarrow> Record" where
  "remove_phone self phone = self\<lparr>phones := [p \<leftarrow> phones self. p \<noteq> phone]\<rparr>"

text \<open>The loop of \<open>edit_phone\<close> over \<open>enumerate(self.phones)\<close>, from index \<open>i\<close> on.\<close>

function edit_phone_from :: "nat \<Rightarrow> Record \<Rightarrow> string \<Rightarrow> string \<Rightarrow> exn option \<times> Record" where
  "edit_phone_from i self old_phone new_phone =
     (if i < length (phones self) then
        (if phones self ! i = old_phone then
           (case Phone new_phone of
              Inl e \<Rightarrow> (Some e, self)
            | Inr p \<Rightarrow> (None, self\<lparr>phones := (phones self)[i := p]\<rparr>))
         else edit_phone_from (Suc i) self old_phone new_phone)
      else (Some (ValueError ''Phone not found''), self))"
  by pat_completeness auto
termination
  by (relation "measure (\<lambda>(i, self, old_phone, new_phone). length (phones self) - i)") auto

declare edit_phone_from.simps [simp del]

definition edit_phone :: "Record \<Rightarrow> string \<Rightarrow> string \<Rightarrow> exn option \<times> Record" where
  "edit_phone self old_phone new_phone = edit_phone_from 0 self old_phone new_phone"

definition find_phone :: "Record \<Rightarrow> string \<Rightarrow> string option" where
  "find_phone self phone = List.find (\<lambda>p. p = phone) (phones self)"

definition add_birthday :: "Record \<Rightarrow> string \<Rightarrow> exn option \<times> Record" where
  "add_birthday self b =
     (case Birthday b of
        Inl e \<Rightarrow> (Some e, self)
      | Inr v \<Rightarrow> (None, self\<lparr>birthday := Some v\<rparr>))"

text \<open>\<open>sep.join(xs)\<close> and \<open>Record.__str__\<close>.\<close>

fun join :: "string \<Rightarrow> string list \<Rightarrow> string" where
  "join sep [] = []"
| "join sep [x] = x"
| "join sep (x # y # ys) = x @ sep @ join sep (y # ys)"

definition str_Record :: "Record \<Rightarrow> string" where
  "str_Record self =
     ''Contact name: '' @ name self @ '', phones: '' @ join ''; '' (phones self) @
     '', birthday: '' @ (case birthday self of Some b \<Rightarrow> b | None \<Rightarrow> ''None'')"

section \<open>AddressBook\<close>

text \<open>
  \<open>self.data\<close> is a dict, which keeps its keys in insertion order: an association list
  with one entry per key. Storing under a key that is present keeps the key's place.
\<close>

type_synonym AddressBook = "(string \<times> Record) list"

fun dict_set :: "'k \<Rightarrow> 'v \<Rightarrow> ('k \<times> 'v) list \<Rightarrow> ('k \<times> 'v) list" where
  "dict_set k v [] = [(k, v)]"
| "dict_set k v ((k', v') # kvs) = (if k' = k then (k, v) # kvs else (k', v') # dict_set k v kvs)"

text \<open>
  The book holds its records as objects, so what a method does to a record that the book
  holds is seen in the book, at the key that holds it. \<open>update_stored\<close> writes the record
  as the method left it at that key; it adds no key, so it stores nothing that
  \<open>add_record\<close> has not stored.
\<close>

fun update_stored :: "'k \<Rightarrow> 'v \<Rightarrow> ('k \<times> 'v) list \<Rightarrow> ('k \<times> 'v) list" where
  "update_stored k v [] = []"
| "update_stored k v ((k', v') # kvs) =
     (if k' = k then (k', v) # kvs else (k', v') # update_stored k v kvs)"

definition add_record :: "AddressBook \<Rightarrow> Record \<Rightarrow> AddressBook" where
  "add_record book record = dict_set (name record) record book"

definition find :: "AddressBook \<Rightarrow> string \<Rightarrow> Record option" where
  "find book n = map_of book n"

definition delete :: "AddressBook \<Rightarrow> string \<Rightarrow> AddressBook" where
  "delete book n = (if n \<in> fst ` set book then [kv \<leftarrow> book. fst kv \<noteq> n] else book)"

subsection \<open>get_upcoming_birthdays\<close>

text \<open>
  \<open>today\<close> is read from the clock in the source and is a parameter here. The body of
  the loop is \<open>upcoming_entry\<close>: \<open>Inr None\<close> when the record adds nothing to \<open>result\<close>.
  An entry of the result is the pair of its \<open>"name"\<close> and its \<open>"birthday"\<close>.
\<close>

definition bday_this_year :: "date \<Rightarrow> date \<Rightarrow> exn + date" where
  "bday_this_year today bday =
     (case replace_year bday (year today) of
        Inl e \<Rightarrow> Inl e
      | Inr b \<Rightarrow> if date_less b today then replace_year b (year today + 1) else Inr b)"

definition congrat_date :: "date \<Rightarrow> exn + date" where
  "congrat_date b =
     (if weekday b = 5 then add_days b 2
      else if weekday b = 6 then add_days b 1
      else Inr b)"

definition upcoming_entry :: "date \<Rightarrow> Record \<Rightarrow> exn + (string \<times> string) option" where
  "upcoming_entry today record =
     (case birthday record of
        None \<Rightarrow> Inr None
      | Some v \<Rightarrow>
          (case strptime v of
             Inl e \<Rightarrow> Inl e
           | Inr bday \<Rightarrow>
               (case bday_this_year today bday of
                  Inl e \<Rightarrow> Inl e
                | Inr b \<Rightarrow>
                    (let delta = toordinal b - toordinal today in
                     if 0 \<le> delta \<and> delta \<le> 7 then
                       (case congrat_date b of
                          Inl e \<Rightarrow> Inl e
                        | Inr c \<Rightarrow> Inr (Some (name record, strftime c)))
                     else Inr None))))"

fun upcoming_loop :: "date \<Rightarrow> Record list \<Rightarrow> (string \<times> string) list \<Rightarrow> exn + (string \<times> string) list" where
  "upcoming_loop today [] result = Inr result"
| "upcoming_loop today (record # rest) result =
     (case upcoming_entry today record of
        Inl e \<Rightarrow> Inl e
      | Inr None \<Rightarrow> upcoming_loop today rest result
      | Inr (Some u) \<Rightarrow> upcoming_loop today rest (result @ [u]))"

definition get_upcoming_birthdays :: "date \<Rightarrow> AddressBook \<Rightarrow> exn + (string \<times> string) list" where
  "get_upcoming_birthdays today book = upcoming_loop today (map snd book) []"

section \<open>Command handlers\<close>

text \<open>
  A handler gets the argument tokens and the book, and returns what it returns or
  raises together with the book as it is afterwards. A record that \<open>find\<close> returns, or
  that \<open>add_record\<close> has just stored, is the object the book holds, so after a method call
  on it the book holds the record as the method left it (\<open>update_stored\<close>).
  \<open>input_error\<close> turns three classes of exception into messages and lets every other
  exception through. The function a decorator is applied to has the suffix \<open>_func\<close>, and
  the decorated one the name of the source; the handler \<open>add_birthday\<close> is
  \<open>add_birthday_cmd\<close> here, as the method of \<open>Record\<close> has the name already.
\<close>

type_synonym handler = "string list \<Rightarrow> AddressBook \<Rightarrow> (exn + string) \<times> AddressBook"

definition input_error :: "handler \<Rightarrow> handler" where
  "input_error func args book =
     (case func args book of
        (Inl (ValueError msg), book') \<Rightarrow> (Inr msg, book')
      | (Inl IndexError, book') \<Rightarrow> (Inr ''Not enough arguments.'', book')
      | (Inl KeyError, book') \<Rightarrow> (Inr ''Contact not found.'', book')
      | res \<Rightarrow> res)"

text \<open>The ValueError of a tuple assignment \<open>a, b = args\<close> whose right side has the wrong length.\<close>

definition unpack_error :: "nat \<Rightarrow> nat \<Rightarrow> exn" where
  "unpack_error expected got =
     (if got < expected
      then ValueError (''not enough values to unpack (expected '' @ str_nat expected @
                       '', got '' @ str_nat got @ '')'')
      else ValueError (''too many values to unpack (expected '' @ str_nat expected @ '')''))"

definition add_contact_func :: handler where
  "add_contact_func args book =
     (case args of
        [n, phone] \<Rightarrow>
          (case find book n of
             None \<Rightarrow>
               (let record = Record_init n;
                    book1 = add_record book record;
                    (raised, record') = add_phone record phone;
                    book2 = update_stored (name record) record' book1
                in case raised of Some e \<Rightarrow> (Inl e, book2) | None \<Rightarrow> (Inr ''Contact added.'', book2))
           | Some record \<Rightarrow>
               (let (raised, record') = add_phone record phone;
                    book1 = update_stored n record' book
                in case raised of Some e \<Rightarrow> (Inl e, book1) | None \<Rightarrow> (Inr ''Contact updated.'', book1)))
      | _ \<Rightarrow> (Inl (unpack_error 2 (length args)), book))"

definition add_contact :: handler where
  "add_contact = input_error add_contact_func"

definition change_contact_func :: handler where
  "change_contact_func args book =
     (case args of
        [n, old_phone, new_phone] \<Rightarrow>
          (case find book n of
             None \<Rightarrow> (Inl KeyError, book)
           | Some record \<Rightarrow>
               (let (raised, record') = edit_phone record old_phone new_phone;
                    book1 = update_stored n record' book
                in case raised of Some e \<Rightarrow> (Inl e, book1) | None \<Rightarrow> (Inr ''Phone updated.'', book1)))
      | _ \<Rightarrow> (Inl (unpack_error 3 (length args)), book))"

definition change_contact :: handler where
  "change_contact = input_error change_contact_func"

definition show_phone_func :: handler where
  "show_phone_func args book =
     (case args of
        [] \<Rightarrow> (Inl IndexError, book)
      | n # _ \<Rightarrow>
          (case find book n of
             None \<Rightarrow> (Inl KeyError, book)
           | Some record \<Rightarrow> (Inr (join ''; '' (phones record)), book)))"

definition show_phone :: handler where
  "show_phone = input_error show_phone_func"

definition add_birthday_func :: handler where
  "add_birthday_func args book =
     (case args of
        [n, b] \<Rightarrow>
          (case find book n of
             None \<Rightarrow> (Inl KeyError, book)
           | Some record \<Rightarrow>
               (let (raised, record') = add_birthday record b;
                    book1 = update_stored n record' book
                in case raised of Some e \<Rightarrow> (Inl e, book1) | None \<Rightarrow> (Inr ''Birthday added.'', book1)))
      | _ \<Rightarrow> (Inl (unpack_error 2 (length args)), book))"

definition add_birthday_cmd :: handler where
  "add_birthday_cmd = input_error add_birthday_func"

definition show_birthday_func :: handler where
  "show_birthday_func args book =
     (case args of
        [] \<Rightarrow> (Inl IndexError, book)
      | n # _ \<Rightarrow>
          (case find book n of
             None \<Rightarrow> (Inr ''Birthday not set.'', book)
           | Some record \<Rightarrow>
               (case birthday record of
                  None \<Rightarrow> (Inr ''Birthday not set.'', book)
                | Some v \<Rightarrow> (Inr v, book))))"

definition show_birthday :: handler where
  "show_birthday = input_error show_birthday_func"

section \<open>Predicates of the specification\<close>

text \<open>A string of exactly ten ASCII decimal digits, as the specification describes a phone.\<close>

definition ten_ascii_digits :: "string \<Rightarrow> bool" where
  "ten_ascii_digits raw = (length raw = 10 \<and> list_all ascii_digit raw)"

text \<open>
  What the code guarantees of a stored phone: ten characters, each accepted by
  \<open>str.isdigit\<close>. A record, and a book, in which every stored phone is such a string.
\<close>

definition phone_ok :: "string \<Rightarrow> bool" where
  "phone_ok p = (length p = 10 \<and> list_all isdigit_char p)"

definition record_inv :: "Record \<Rightarrow> bool" where
  "record_inv r = list_all phone_ok (phones r)"

definition book_inv :: "AddressBook \<Rightarrow> bool" where
  "book_inv book = list_all (\<lambda>kv. record_inv (snd kv)) book"

text \<open>A record in which every stored phone is ten ASCII digits, as the specification has it.\<close>

definition record_ascii_inv :: "Record \<Rightarrow> bool" where
  "record_ascii_inv r = list_all ten_ascii_digits (phones r)"

text \<open>The dates that \<open>datetime.date\<close> can hold.\<close>

definition valid_date :: "date \<Rightarrow> bool" where
  "valid_date d =
     (MINYEAR \<le> year d \<and> year d \<le> MAXYEAR \<and> 1 \<le> month d \<and> month d \<le> 12 \<and>
      1 \<le> day d \<and> day d \<le> days_in_month (year d) (month d))"

text \<open>
  The congratulation date of the specification: the occurrence itself, or the second day
  after a Saturday, or the day after a Sunday.
\<close>

definition congratulation_date :: "date \<Rightarrow> date" where
  "congratulation_date occ =
     (if weekday occ = 5 then next_day (next_day occ)
      else if weekday occ = 6 then next_day occ
      else occ)"

text \<open>
  The occurrence of a birthday as the specification computes it: the birthday's day and
  month in today's year, or in the next year when that date is strictly before today;
  then the difference in whole days, and the window of today and the seven days after.
\<close>

definition spec_occurrence :: "date \<Rightarrow> date \<Rightarrow> date" where
  "spec_occurrence today bday =
     (let occurrence = \<lparr>year = year today, month = month bday, day = day bday\<rparr>
      in if date_less occurrence today
         then \<lparr>year = year today + 1, month = month bday, day = day bday\<rparr>
         else occurrence)"

definition spec_delta :: "date \<Rightarrow> date \<Rightarrow> int" where
  "spec_delta today bday = toordinal (spec_occurrence today bday) - toordinal today"

definition in_window :: "date \<Rightarrow> date \<Rightarrow> bool" where
  "in_window today bday = (0 \<le> spec_delta today bday \<and> spec_delta today bday \<le> 7)"

text \<open>
  The date a record's stored birthday parses to, whether the specification includes the
  record, and the entry it reports for it.
\<close>

definition stored_date :: "Record \<Rightarrow> date option" where
  "stored_date r =
     (case birthday r of
        None \<Rightarrow> None
      | Some v \<Rightarrow> (case strptime v of Inl e \<Rightarrow> None | Inr bday \<Rightarrow> Some bday))"

definition included :: "date \<Rightarrow> Record \<Rightarrow> bool" where
  "included today r = (case stored_date r of None \<Rightarrow> False | Some bday \<Rightarrow> in_window today bday)"

definition spec_entry :: "date \<Rightarrow> Record \<Rightarrow> (string \<times> string) option" where
  "spec_entry today r =
     (case stored_date r of
        None \<Rightarrow> None
      | Some bday \<Rightarrow>
          if in_window today bday
          then Some (name r, strftime (congratulation_date (spec_occurrence today bday)))
          else None)"

text \<open>
  The record has no birthday, or its birthday parses and lines 87 to 90 of the source
  build its occurrence without raising.
\<close>

definition occurrence_exists :: "date \<Rightarrow> Record \<Rightarrow> bool" where
  "occurrence_exists today r =
     (case birthday r of
        None \<Rightarrow> True
      | Some v \<Rightarrow>
          (case strptime v of
             Inl e \<Rightarrow> False
           | Inr bday \<Rightarrow> (case bday_this_year today bday of Inl e \<Rightarrow> False | Inr occ \<Rightarrow> True)))"

text \<open>
  The texts that the three groups of the regular expression match (\<open>re_digit\<close> where the
  pattern has \<open>\d\<close>, ranges of ASCII digits where it has a class), and the three fields
  of a string around its first two dots.
\<close>

definition day_text :: "string \<Rightarrow> bool" where
  "day_text d =
     (case d of
        [a] \<Rightarrow> in_range (CHR ''1'') (CHR ''9'') a
      | [a, b] \<Rightarrow>
          (a = CHR ''3'' \<and> in_range (CHR ''0'') (CHR ''1'') b) \<or>
          (in_range (CHR ''1'') (CHR ''2'') a \<and> re_digit b) \<or>
          ((a = CHR ''0'' \<or> a = CHR '' '') \<and> in_range (CHR ''1'') (CHR ''9'') b)
      | _ \<Rightarrow> False)"

definition month_text :: "string \<Rightarrow> bool" where
  "month_text m =
     (case m of
        [a] \<Rightarrow> in_range (CHR ''1'') (CHR ''9'') a
      | [a, b] \<Rightarrow>
          (a = CHR ''1'' \<and> in_range (CHR ''0'') (CHR ''2'') b) \<or>
          (a = CHR ''0'' \<and> in_range (CHR ''1'') (CHR ''9'') b)
      | _ \<Rightarrow> False)"

definition year_text :: "string \<Rightarrow> bool" where
  "year_text y =
     (case y of
        [a, b, c, d] \<Rightarrow> re_digit a \<and> re_digit b \<and> re_digit c \<and> re_digit d
      | _ \<Rightarrow> False)"

definition fields :: "string \<Rightarrow> (string \<times> string \<times> string) option" where
  "fields s =
     (case dropWhile (\<lambda>c. c \<noteq> CHR ''.'') s of
        [] \<Rightarrow> None
      | _ # r \<Rightarrow>
          (case dropWhile (\<lambda>c. c \<noteq> CHR ''.'') r of
             [] \<Rightarrow> None
           | _ # y \<Rightarrow>
               Some (takeWhile (\<lambda>c. c \<noteq> CHR ''.'') s, takeWhile (\<lambda>c. c \<noteq> CHR ''.'') r, y)))"

text \<open>
  What the code accepts as a birthday: a day, a month and a year text around two dots
  that are the fields of a date \<open>datetime.date\<close> can hold.
\<close>

definition birthday_text :: "string \<Rightarrow> bool" where
  "birthday_text raw =
     (case fields raw of
        None \<Rightarrow> False
      | Some (d, m, y) \<Rightarrow>
          day_text d \<and> month_text m \<and> year_text y \<and>
          valid_date \<lparr>year = py_int y, month = py_int m, day = py_int d\<rparr>)"

text \<open>
  The pattern DD.MM.YYYY of the specification (two digits, two digits and four digits
  around two dots), and a text whose three fields are the numbers of a real date.
\<close>

definition matches_DD_MM_YYYY :: "string \<Rightarrow> bool" where
  "matches_DD_MM_YYYY s =
     (case fields s of
        None \<Rightarrow> False
      | Some (d, m, y) \<Rightarrow>
          length d = 2 \<and> list_all ascii_digit d \<and> length m = 2 \<and> list_all ascii_digit m \<and>
          length y = 4 \<and> list_all ascii_digit y)"

definition real_date_text :: "string \<Rightarrow> bool" where
  "real_date_text s =
     (case fields s of
        None \<Rightarrow> False
      | Some (d, m, y) \<Rightarrow> valid_date \<lparr>year = py_int y, month = py_int m, day = py_int d\<rparr>)"

text \<open>
  A record whose stored birthday, if any, is a text the validator accepts; and the text
  \<open>__str__\<close> prints for the birthday.
\<close>

definition birthday_ok :: "Record \<Rightarrow> bool" where
  "birthday_ok r = (case birthday r of None \<Rightarrow> True | Some v \<Rightarrow> birthday_text v)"

definition birthday_str :: "Record \<Rightarrow> string" where
  "birthday_str r = (case birthday r of Some b \<Rightarrow> b | None \<Rightarrow> ''None'')"

section \<open>Phone validation\<close>

lemma isdigit_length_10: "isdigit s \<and> length s = 10 \<longleftrightarrow> length s = 10 \<and> list_all isdigit_char s"
  by (auto simp: isdigit_def)

lemma Phone_eq:
  "Phone raw =
     (if length raw = 10 \<and> list_all isdigit_char raw then Inr raw
      else Inl (ValueError ''Phone number must contain exactly 10 digits''))"
  unfolding Phone_def using isdigit_length_10 [of raw] by simp

lemma Phone_Inl:
  "Phone raw = Inl e \<Longrightarrow> e = ValueError ''Phone number must contain exactly 10 digits''"
  by (auto simp: Phone_def split: if_splits)

lemma Phone_Inr: "Phone raw = Inr p \<Longrightarrow> p = raw \<and> length raw = 10 \<and> list_all isdigit_char raw"
  by (auto simp: Phone_eq split: if_splits)

text \<open>
  Claim C4, as amended. \<open>Phone\<close> succeeds if and only if the string has exactly ten
  characters and \<open>str.isdigit\<close> accepts each of them; then the stored value is the string
  itself. Every other string raises the ValueError of the validator. Ten ASCII digits are
  always accepted, and a string whose length is not ten never is.
\<close>

theorem Phone_succeeds_iff:
  "Phone raw =
     (if length raw = 10 \<and> list_all isdigit_char raw then Inr raw
      else Inl (ValueError ''Phone number must contain exactly 10 digits'')) \<and>
   (ten_ascii_digits raw \<longrightarrow> Phone raw = Inr raw) \<and>
   (length raw \<noteq> 10 \<longrightarrow> Phone raw = Inl (ValueError ''Phone number must contain exactly 10 digits''))"
  by (simp add: Phone_eq ten_ascii_digits_def isdigit_char_def list_all_iff)

text \<open>The theorem at the phone 0123456789 and at the three-character string 123.\<close>

theorem Phone_succeeds_iff_witness:
  "ten_ascii_digits ''0123456789'' \<and> Phone ''0123456789'' = Inr ''0123456789'' \<and>
   length ''123'' \<noteq> 10 \<and> Phone ''123'' = Inl (ValueError ''Phone number must contain exactly 10 digits'')"
proof -
  have a: "ten_ascii_digits ''0123456789''" by code_simp
  have b: "Phone ''0123456789'' = Inr ''0123456789''"
    using a Phone_succeeds_iff [of "''0123456789''"] by blast
  have c: "Phone ''123'' = Inl (ValueError ''Phone number must contain exactly 10 digits'')"
    using Phone_succeeds_iff [of "''123''"] by simp
  show ?thesis
    using a b c by simp
qed

text \<open>
  Claim C4 as stated fails: ten times SUPERSCRIPT TWO (U+00B2) is accepted and stored,
  and is not a string of ASCII digits.
\<close>

theorem Phone_superscript_counterexample:
  "Phone (replicate 10 (CHR 0xB2)) = Inr (replicate 10 (CHR 0xB2)) \<and>
   \<not> ten_ascii_digits (replicate 10 (CHR 0xB2))"
  by code_simp

section \<open>The add command\<close>

lemma dict_set_absent: "map_of kvs k = None \<Longrightarrow> dict_set k v kvs = kvs @ [(k, v)]"
  by (induction kvs) (auto split: if_splits)

lemma update_stored_last:
  "map_of kvs k = None \<Longrightarrow> update_stored k v (kvs @ [(k, w)]) = kvs @ [(k, v)]"
  by (induction kvs) (auto split: if_splits)

text \<open>
  Claim C10. When the book has no record under the name and the phone fails validation,
  \<open>add_contact\<close> returns the validator's message, and the book has gained, after its other
  entries, a record under that name with no phone and no birthday.
\<close>

theorem add_contact_invalid_phone_keeps_new_record:
  assumes "find book n = None" and "Phone phone = Inl e"
  shows "add_contact [n, phone] book =
           (Inr ''Phone number must contain exactly 10 digits'',
            book @ [(n, \<lparr>name = n, phones = [], birthday = None\<rparr>)])"
proof -
  from assms(2) have e: "e = ValueError ''Phone number must contain exactly 10 digits''"
    by (rule Phone_Inl)
  from assms(1) have m: "map_of book n = None" by (simp add: find_def)
  show ?thesis
    using assms e
    by (simp add: add_contact_def input_error_def add_contact_func_def Record_init_def
        add_record_def add_phone_def dict_set_absent [OF m] update_stored_last [OF m])
qed

text \<open>The theorem on the empty book, for the name Ann and the phone 123.\<close>

theorem add_contact_invalid_phone_keeps_new_record_witness:
  "find [] ''Ann'' = None \<and>
   Phone ''123'' = Inl (ValueError ''Phone number must contain exactly 10 digits'') \<and>
   add_contact [''Ann'', ''123''] [] =
     (Inr ''Phone number must contain exactly 10 digits'',
      [(''Ann'', \<lparr>name = ''Ann'', phones = [], birthday = None\<rparr>)])"
proof -
  have f: "find [] ''Ann'' = None" by (simp add: find_def)
  have p: "Phone ''123'' = Inl (ValueError ''Phone number must contain exactly 10 digits'')"
    by (simp add: Phone_def)
  show ?thesis
    using f p add_contact_invalid_phone_keeps_new_record [OF f p] by simp
qed

section \<open>Too few argument tokens\<close>

text \<open>
  Claim C7 fails on three of the five commands. \<open>add\<close>, \<open>change\<close> and \<open>add-birthday\<close>
  take their arguments by tuple assignment, which raises ValueError, and the wrapper returns
  the text of that error. \<open>phone\<close> and \<open>show-birthday\<close> index the list, raise IndexError
  and return the message the claim names.
\<close>

theorem too_few_arguments_messages:
  "add_contact [''John''] [] = (Inr ''not enough values to unpack (expected 2, got 1)'', []) \<and>
   change_contact [''John'', ''0123456789''] [] =
     (Inr ''not enough values to unpack (expected 3, got 2)'', []) \<and>
   add_birthday_cmd [] [] = (Inr ''not enough values to unpack (expected 2, got 0)'', []) \<and>
   show_phone [] [] = (Inr ''Not enough arguments.'', []) \<and>
   show_birthday [] [] = (Inr ''Not enough arguments.'', [])"
  by code_simp

section \<open>Record.edit_phone\<close>

lemma edit_phone_from_absent:
  "(\<And>j. i \<le> j \<Longrightarrow> j < length (phones self) \<Longrightarrow> phones self ! j \<noteq> old_phone) \<Longrightarrow>
   edit_phone_from i self old_phone new_phone = (Some (ValueError ''Phone not found''), self)"
proof (induction i self old_phone new_phone rule: edit_phone_from.induct)
  case (1 i self old_phone new_phone)
  show ?case
  proof (cases "i < length (phones self)")
    case True
    with "1.prems" [of i] have ne: "phones self ! i \<noteq> old_phone" by simp
    have "edit_phone_from (Suc i) self old_phone new_phone = (Some (ValueError ''Phone not found''), self)"
      using True ne "1.prems" by (intro "1.IH") auto
    with True ne show ?thesis by (subst edit_phone_from.simps) simp
  next
    case False
    then show ?thesis by (subst edit_phone_from.simps) simp
  qed
qed

lemma edit_phone_from_first:
  "i \<le> k \<Longrightarrow> k < length (phones self) \<Longrightarrow> phones self ! k = old_phone \<Longrightarrow>
   (\<And>j. i \<le> j \<Longrightarrow> j < k \<Longrightarrow> phones self ! j \<noteq> old_phone) \<Longrightarrow>
   edit_phone_from i self old_phone new_phone =
     (case Phone new_phone of
        Inl e \<Rightarrow> (Some e, self)
      | Inr p \<Rightarrow> (None, self\<lparr>phones := (phones self)[k := p]\<rparr>))"
proof (induction i self old_phone new_phone rule: edit_phone_from.induct)
  case (1 i self old_phone new_phone)
  have il: "i < length (phones self)" using "1.prems" by simp
  show ?case
  proof (cases "i = k")
    case True
    with "1.prems" il show ?thesis by (subst edit_phone_from.simps) (simp split: sum.splits)
  next
    case False
    with "1.prems" have lt: "i < k" by simp
    with "1.prems" have ne: "phones self ! i \<noteq> old_phone" by simp
    have "edit_phone_from (Suc i) self old_phone new_phone =
            (case Phone new_phone of
               Inl e \<Rightarrow> (Some e, self)
             | Inr p \<Rightarrow> (None, self\<lparr>phones := (phones self)[k := p]\<rparr>))"
      using il ne lt "1.prems" by (intro "1.IH") auto
    with il ne show ?thesis by (subst edit_phone_from.simps) simp
  qed
qed

lemma first_index_ex:
  "x \<in> set xs \<Longrightarrow> \<exists>k<length xs. xs ! k = x \<and> (\<forall>j<k. xs ! j \<noteq> x)"
proof (induction xs)
  case Nil
  then show ?case by simp
next
  case (Cons a xs)
  show ?case
  proof (cases "a = x")
    case True
    then have "0 < length (a # xs) \<and> (a # xs) ! 0 = x \<and> (\<forall>j<0. (a # xs) ! j \<noteq> x)" by simp
    then show ?thesis by blast
  next
    case False
    with Cons obtain k where k: "k < length xs" "xs ! k = x" "\<forall>j<k. xs ! j \<noteq> x" by auto
    have "\<forall>j<Suc k. (a # xs) ! j \<noteq> x"
      using False k(3) by (auto simp: nth_Cons split: nat.splits)
    with k have "Suc k < length (a # xs) \<and> (a # xs) ! Suc k = x \<and> (\<forall>j<Suc k. (a # xs) ! j \<noteq> x)"
      by simp
    then show ?thesis by blast
  qed
qed

text \<open>
  Claim C6. When no stored phone equals \<open>old_phone\<close>, \<open>edit_phone\<close> raises "Phone not found",
  whatever \<open>new_phone\<close> is. When one does and \<open>new_phone\<close> fails validation, it raises the
  validator's error. When one does and \<open>new_phone\<close> is valid, the first phone equal to
  \<open>old_phone\<close> is replaced at its own index and nothing else changes. Whenever it raises,
  the record is what it was.
\<close>

theorem edit_phone_cases:
  "(old_phone \<notin> set (phones self) \<longrightarrow>
      edit_phone self old_phone new_phone = (Some (ValueError ''Phone not found''), self)) \<and>
   (old_phone \<in> set (phones self) \<and> Phone new_phone = Inl e \<longrightarrow>
      e = ValueError ''Phone number must contain exactly 10 digits'' \<and>
      edit_phone self old_phone new_phone = (Some e, self)) \<and>
   (old_phone \<in> set (phones self) \<and> Phone new_phone = Inr p \<longrightarrow>
      (\<exists>k<length (phones self). phones self ! k = old_phone \<and> (\<forall>j<k. phones self ! j \<noteq> old_phone) \<and>
         edit_phone self old_phone new_phone = (None, self\<lparr>phones := (phones self)[k := new_phone]\<rparr>))) \<and>
   (fst (edit_phone self old_phone new_phone) \<noteq> None \<longrightarrow>
      snd (edit_phone self old_phone new_phone) = self)"
proof -
  have absent: "edit_phone self old_phone new_phone = (Some (ValueError ''Phone not found''), self)"
    if "old_phone \<notin> set (phones self)"
    unfolding edit_phone_def using that by (intro edit_phone_from_absent) auto
  have present: "\<exists>k<length (phones self). phones self ! k = old_phone \<and> (\<forall>j<k. phones self ! j \<noteq> old_phone) \<and>
      edit_phone self old_phone new_phone =
        (case Phone new_phone of
           Inl e \<Rightarrow> (Some e, self)
         | Inr p \<Rightarrow> (None, self\<lparr>phones := (phones self)[k := p]\<rparr>))"
    if "old_phone \<in> set (phones self)"
  proof -
    from first_index_ex [OF that] obtain k where
      k: "k < length (phones self)" "phones self ! k = old_phone" "\<forall>j<k. phones self ! j \<noteq> old_phone"
      by blast
    have "edit_phone_from 0 self old_phone new_phone =
        (case Phone new_phone of
           Inl e \<Rightarrow> (Some e, self)
         | Inr p \<Rightarrow> (None, self\<lparr>phones := (phones self)[k := p]\<rparr>))"
      using k by (intro edit_phone_from_first) auto
    with k show ?thesis unfolding edit_phone_def by blast
  qed
  show ?thesis
  proof (cases "old_phone \<in> set (phones self)")
    case False
    then show ?thesis using absent by simp
  next
    case True
    from present [OF True] obtain k where
      k: "k < length (phones self)" "phones self ! k = old_phone" "\<forall>j<k. phones self ! j \<noteq> old_phone"
        "edit_phone self old_phone new_phone =
        (case Phone new_phone of
           Inl e \<Rightarrow> (Some e, self)
         | Inr p \<Rightarrow> (None, self\<lparr>phones := (phones self)[k := p]\<rparr>))"
      by blast
    show ?thesis
    proof (cases "Phone new_phone")
      case (Inl e')
      then show ?thesis using True k by (auto dest: Phone_Inl)
    next
      case (Inr p')
      then have "p' = new_phone" by (simp add: Phone_Inr)
      then show ?thesis using True k Inr by auto
    qed
  qed
qed

text \<open>The theorem on a record with three phones, the first and the last equal.\<close>

theorem edit_phone_cases_witness:
  "''3333333333'' \<notin> set [''1111111111'', ''2222222222'', ''1111111111''] \<and>
   edit_phone \<lparr>name = ''Ann'', phones = [''1111111111'', ''2222222222'', ''1111111111''], birthday = None\<rparr>
      ''3333333333'' ''0123456789'' =
     (Some (ValueError ''Phone not found''),
      \<lparr>name = ''Ann'', phones = [''1111111111'', ''2222222222'', ''1111111111''], birthday = None\<rparr>) \<and>
   Phone ''12'' = Inl (ValueError ''Phone number must contain exactly 10 digits'') \<and>
   edit_phone \<lparr>name = ''Ann'', phones = [''1111111111'', ''2222222222'', ''1111111111''], birthday = None\<rparr>
      ''2222222222'' ''12'' =
     (Some (ValueError ''Phone number must contain exactly 10 digits''),
      \<lparr>name = ''Ann'', phones = [''1111111111'', ''2222222222'', ''1111111111''], birthday = None\<rparr>) \<and>
   Phone ''0123456789'' = Inr ''0123456789'' \<and>
   edit_phone \<lparr>name = ''Ann'', phones = [''1111111111'', ''2222222222'', ''1111111111''], birthday = None\<rparr>
      ''1111111111'' ''0123456789'' =
     (None, \<lparr>name = ''Ann'', phones = [''0123456789'', ''2222222222'', ''1111111111''], birthday = None\<rparr>)"
proof -
  let ?r = "\<lparr>name = ''Ann'', phones = [''1111111111'', ''2222222222'', ''1111111111''], birthday = None\<rparr>"
  have bad: "Phone ''12'' = Inl (ValueError ''Phone number must contain exactly 10 digits'')"
    by (simp add: Phone_def)
  have good: "Phone ''0123456789'' = Inr ''0123456789''" by code_simp
  have a: "edit_phone ?r ''3333333333'' ''0123456789'' = (Some (ValueError ''Phone not found''), ?r)"
    using edit_phone_cases [of "''3333333333''" ?r "''0123456789''"] by simp
  have b: "edit_phone ?r ''2222222222'' ''12'' =
             (Some (ValueError ''Phone number must contain exactly 10 digits''), ?r)"
    using edit_phone_cases [of "''2222222222''" ?r "''12''" "ValueError ''Phone number must contain exactly 10 digits''"] bad
    by simp
  have "\<exists>k<length (phones ?r). phones ?r ! k = ''1111111111'' \<and> (\<forall>j<k. phones ?r ! j \<noteq> ''1111111111'') \<and>
          edit_phone ?r ''1111111111'' ''0123456789'' = (None, ?r\<lparr>phones := (phones ?r)[k := ''0123456789'']\<rparr>)"
    using edit_phone_cases [of "''1111111111''" ?r "''0123456789''" _ "''0123456789''"] good by simp
  then obtain k where k: "\<forall>j<k. phones ?r ! j \<noteq> ''1111111111''"
      "edit_phone ?r ''1111111111'' ''0123456789'' = (None, ?r\<lparr>phones := (phones ?r)[k := ''0123456789'']\<rparr>)"
    by blast
  have "k = 0"
  proof (rule ccontr)
    assume "k \<noteq> 0"
    then have "0 < k" by simp
    with k(1) have "phones ?r ! 0 \<noteq> ''1111111111''" by blast
    then show False by simp
  qed
  with k(2) have c: "edit_phone ?r ''1111111111'' ''0123456789'' =
      (None, \<lparr>name = ''Ann'', phones = [''0123456789'', ''2222222222'', ''1111111111''], birthday = None\<rparr>)"
    by simp
  show ?thesis using a b c bad good by simp
qed

section \<open>The phones a record can hold\<close>

lemma book_inv_find: "book_inv book \<Longrightarrow> find book n = Some r \<Longrightarrow> record_inv r"
proof -
  assume inv: "book_inv book" and f: "find book n = Some r"
  from f have "(n, r) \<in> set book" by (simp add: find_def map_of_SomeD)
  with inv show ?thesis by (force simp: book_inv_def list_all_iff)
qed

lemma book_inv_dict_set: "book_inv book \<Longrightarrow> record_inv r \<Longrightarrow> book_inv (dict_set k r book)"
  by (induction book) (auto simp: book_inv_def)

lemma book_inv_update_stored:
  "book_inv book \<Longrightarrow> record_inv r \<Longrightarrow> book_inv (update_stored k r book)"
  by (induction book) (auto simp: book_inv_def)

lemma record_inv_init: "record_inv (Record_init n)"
  by (simp add: record_inv_def Record_init_def)

lemma record_inv_add_phone: "record_inv r \<Longrightarrow> record_inv (snd (add_phone r raw))"
  by (auto simp: record_inv_def add_phone_def phone_ok_def split: sum.splits dest: Phone_Inr)

lemma record_inv_remove_phone: "record_inv r \<Longrightarrow> record_inv (remove_phone r raw)"
  by (auto simp: record_inv_def remove_phone_def list_all_iff)

lemma record_inv_add_birthday: "record_inv r \<Longrightarrow> record_inv (snd (add_birthday r b))"
  by (auto simp: record_inv_def add_birthday_def split: sum.splits)

lemma edit_phone_from_inv:
  "record_inv self \<Longrightarrow> record_inv (snd (edit_phone_from i self old_phone new_phone))"
proof (induction i self old_phone new_phone rule: edit_phone_from.induct)
  case (1 i self old_phone new_phone)
  show ?case
  proof (cases "i < length (phones self) \<and> phones self ! i \<noteq> old_phone")
    case True
    then have "edit_phone_from i self old_phone new_phone = edit_phone_from (Suc i) self old_phone new_phone"
      by (subst edit_phone_from.simps) simp
    with True "1.IH" "1.prems" show ?thesis by simp
  next
    case False
    have upd: "list_all phone_ok ((phones self)[i := p])" if "Phone new_phone = Inr p" for p
    proof -
      from that have "phone_ok p" by (auto simp: phone_ok_def dest: Phone_Inr)
      with "1.prems" show ?thesis
        unfolding record_inv_def list_all_iff using set_update_subset_insert [of "phones self" i p] by auto
    qed
    from False "1.prems" show ?thesis
      by (subst edit_phone_from.simps) (auto simp: record_inv_def upd split: sum.splits)
  qed
qed

lemma record_inv_edit_phone: "record_inv r \<Longrightarrow> record_inv (snd (edit_phone r old_phone new_phone))"
  by (simp add: edit_phone_def edit_phone_from_inv)

lemma book_inv_add_record: "book_inv book \<Longrightarrow> record_inv r \<Longrightarrow> book_inv (add_record book r)"
  by (simp add: add_record_def book_inv_dict_set)

lemma book_inv_delete: "book_inv book \<Longrightarrow> book_inv (delete book n)"
  by (auto simp: delete_def book_inv_def list_all_iff)

lemma snd_input_error: "snd (input_error func args book) = snd (func args book)"
  by (auto simp: input_error_def split: prod.splits sum.splits exn.splits)

lemma book_inv_add_contact: "book_inv book \<Longrightarrow> book_inv (snd (add_contact args book))"
proof -
  assume inv: "book_inv book"
  have "book_inv (snd (add_contact_func args book))"
  proof (cases "\<exists>n phone. args = [n, phone]")
    case False
    then have "add_contact_func args book = (Inl (unpack_error 2 (length args)), book)"
      by (auto simp: add_contact_func_def split: list.splits)
    with inv show ?thesis by simp
  next
    case True
    then obtain n phone where args: "args = [n, phone]" by blast
    show ?thesis
    proof (cases "find book n")
      case None
      have "record_inv (snd (add_phone (Record_init n) phone))"
        by (rule record_inv_add_phone [OF record_inv_init])
      moreover have "book_inv (add_record book (Record_init n))"
        by (rule book_inv_add_record [OF inv record_inv_init])
      ultimately have "book_inv (update_stored (name (Record_init n)) (snd (add_phone (Record_init n) phone))
                                   (add_record book (Record_init n)))"
        by (simp add: book_inv_update_stored)
      with None args show ?thesis
        by (auto simp: add_contact_func_def Let_def split: prod.splits option.splits)
    next
      case (Some r)
      with inv have "record_inv r" by (simp add: book_inv_find)
      then have "record_inv (snd (add_phone r phone))" by (rule record_inv_add_phone)
      with inv have "book_inv (update_stored n (snd (add_phone r phone)) book)"
        by (simp add: book_inv_update_stored)
      with Some args show ?thesis
        by (auto simp: add_contact_func_def Let_def split: prod.splits option.splits)
    qed
  qed
  then show ?thesis by (simp add: add_contact_def snd_input_error)
qed

lemma book_inv_change_contact: "book_inv book \<Longrightarrow> book_inv (snd (change_contact args book))"
proof -
  assume inv: "book_inv book"
  have "book_inv (snd (change_contact_func args book))"
  proof (cases "\<exists>n old_phone new_phone. args = [n, old_phone, new_phone]")
    case False
    then have "change_contact_func args book = (Inl (unpack_error 3 (length args)), book)"
      by (auto simp: change_contact_func_def split: list.splits)
    with inv show ?thesis by simp
  next
    case True
    then obtain n old_phone new_phone where args: "args = [n, old_phone, new_phone]" by blast
    show ?thesis
    proof (cases "find book n")
      case None
      with args inv show ?thesis by (simp add: change_contact_func_def)
    next
      case (Some r)
      with inv have "record_inv r" by (simp add: book_inv_find)
      then have "record_inv (snd (edit_phone r old_phone new_phone))" by (rule record_inv_edit_phone)
      with inv have "book_inv (update_stored n (snd (edit_phone r old_phone new_phone)) book)"
        by (simp add: book_inv_update_stored)
      with Some args show ?thesis
        by (auto simp: change_contact_func_def Let_def split: prod.splits option.splits)
    qed
  qed
  then show ?thesis by (simp add: change_contact_def snd_input_error)
qed

lemma book_inv_add_birthday_cmd: "book_inv book \<Longrightarrow> book_inv (snd (add_birthday_cmd args book))"
proof -
  assume inv: "book_inv book"
  have "book_inv (snd (add_birthday_func args book))"
  proof (cases "\<exists>n b. args = [n, b]")
    case False
    then have "add_birthday_func args book = (Inl (unpack_error 2 (length args)), book)"
      by (auto simp: add_birthday_func_def split: list.splits)
    with inv show ?thesis by simp
  next
    case True
    then obtain n b where args: "args = [n, b]" by blast
    show ?thesis
    proof (cases "find book n")
      case None
      with args inv show ?thesis by (simp add: add_birthday_func_def)
    next
      case (Some r)
      with inv have "record_inv r" by (simp add: book_inv_find)
      then have "record_inv (snd (add_birthday r b))" by (rule record_inv_add_birthday)
      with inv have "book_inv (update_stored n (snd (add_birthday r b)) book)"
        by (simp add: book_inv_update_stored)
      with Some args show ?thesis
        by (auto simp: add_birthday_func_def Let_def split: prod.splits option.splits)
    qed
  qed
  then show ?thesis by (simp add: add_birthday_cmd_def snd_input_error)
qed

lemma show_phone_book: "snd (show_phone args book) = book"
  by (auto simp: show_phone_def snd_input_error show_phone_func_def split: list.splits option.splits)

lemma show_birthday_book: "snd (show_birthday args book) = book"
  by (auto simp: show_birthday_def snd_input_error show_birthday_func_def split: list.splits option.splits)

text \<open>
  Claim C8, as amended. Every stored phone is a string of exactly ten characters, each
  accepted by \<open>str.isdigit\<close>: a new record satisfies this, every method of \<open>Record\<close>
  keeps it, \<open>add_record\<close> and \<open>delete\<close> keep it for the book, and so do the command
  handlers.
\<close>

theorem stored_phones_invariant:
  assumes "record_inv r" and "book_inv book"
  shows "record_inv (Record_init n) \<and>
         record_inv (snd (add_phone r raw)) \<and>
         record_inv (snd (edit_phone r old_phone new_phone)) \<and>
         record_inv (remove_phone r raw) \<and>
         record_inv (snd (add_birthday r b)) \<and>
         book_inv (add_record book r) \<and>
         book_inv (delete book n) \<and>
         book_inv (snd (add_contact args book)) \<and>
         book_inv (snd (change_contact args book)) \<and>
         book_inv (snd (add_birthday_cmd args book)) \<and>
         snd (show_phone args book) = book \<and>
         snd (show_birthday args book) = book"
  using assms
  by (simp add: record_inv_init record_inv_add_phone record_inv_edit_phone record_inv_remove_phone
      record_inv_add_birthday book_inv_add_record book_inv_delete book_inv_add_contact
      book_inv_change_contact book_inv_add_birthday_cmd show_phone_book show_birthday_book)

text \<open>The theorem on a record with one phone and the book that holds it.\<close>

theorem stored_phones_invariant_witness:
  "record_inv \<lparr>name = ''Ann'', phones = [''0123456789''], birthday = None\<rparr> \<and>
   book_inv [(''Ann'', \<lparr>name = ''Ann'', phones = [''0123456789''], birthday = None\<rparr>)] \<and>
   record_inv (snd (add_phone \<lparr>name = ''Ann'', phones = [''0123456789''], birthday = None\<rparr> ''12'')) \<and>
   record_inv (snd (edit_phone \<lparr>name = ''Ann'', phones = [''0123456789''], birthday = None\<rparr>
                      ''0123456789'' ''9876543210'')) \<and>
   book_inv (snd (add_contact [''Ann'', ''9876543210'']
                    [(''Ann'', \<lparr>name = ''Ann'', phones = [''0123456789''], birthday = None\<rparr>)]))"
proof -
  let ?r = "\<lparr>name = ''Ann'', phones = [''0123456789''], birthday = None\<rparr>"
  have r: "record_inv ?r" by code_simp
  have b: "book_inv [(''Ann'', ?r)]" by code_simp
  show ?thesis
    using r b
      stored_phones_invariant [OF r b, of "''Ann''" "''12''" "''0123456789''" "''9876543210''" "''01.01.2000''"
        "[''Ann'', ''9876543210'']"]
    by simp
qed

text \<open>
  Claim C8 as stated fails: \<open>add_phone\<close> stores ten times SUPERSCRIPT TWO (U+00B2) in a new
  record, which then holds a phone that is not made of ASCII digits.
\<close>

theorem stored_phone_not_ascii_counterexample:
  "record_ascii_inv (Record_init ''Ann'') \<and>
   add_phone (Record_init ''Ann'') (replicate 10 (CHR 0xB2)) =
     (None, \<lparr>name = ''Ann'', phones = [replicate 10 (CHR 0xB2)], birthday = None\<rparr>) \<and>
   \<not> record_ascii_inv (snd (add_phone (Record_init ''Ann'') (replicate 10 (CHR 0xB2))))"
  by code_simp

section \<open>The calendar\<close>

lemma mk_date_Inr: "mk_date y m d = Inr x \<Longrightarrow> x = \<lparr>year = y, month = m, day = d\<rparr> \<and> valid_date x"
  by (auto simp: mk_date_def valid_date_def split: if_splits)

lemma month_cases:
  "1 \<le> (m::int) \<Longrightarrow> m \<le> 12 \<Longrightarrow>
   m = 1 \<or> m = 2 \<or> m = 3 \<or> m = 4 \<or> m = 5 \<or> m = 6 \<or> m = 7 \<or> m = 8 \<or> m = 9 \<or> m = 10 \<or> m = 11 \<or> m = 12"
  by arith

lemma div_step:
  fixes y n :: int
  assumes "0 < n"
  shows "y div n = (y - 1) div n + (if y mod n = 0 then 1 else 0)"
proof -
  define q where "q = y div n"
  define r where "r = y mod n"
  have y: "y = n * q + r" by (simp add: q_def r_def)
  have r: "0 \<le> r" "r < n" using assms by (simp_all add: r_def)
  show ?thesis
  proof (cases "r = 0")
    case True
    have "y - 1 = n * (q - 1) + (n - 1)" using y True by (simp add: algebra_simps)
    then have "(y - 1) div n = q - 1" using assms by (intro int_div_pos_eq [where r = "n - 1"]) simp_all
    with True show ?thesis by (simp add: q_def r_def)
  next
    case False
    have "y - 1 = n * q + (r - 1)" using y by simp
    then have "(y - 1) div n = q" using r False by (intro int_div_pos_eq [where r = "r - 1"]) simp_all
    with False show ?thesis by (simp add: q_def r_def)
  qed
qed

lemma days_before_year_Suc:
  "days_before_year (y + 1) = days_before_year y + 365 + (if is_leap y then 1 else 0)"
proof -
  define a where "a = (y - 1) div 4"
  define b where "b = (y - 1) div 100"
  define c where "c = (y - 1) div 400"
  have a: "y div 4 = a + (if y mod 4 = 0 then 1 else 0)" unfolding a_def by (rule div_step) simp
  have b: "y div 100 = b + (if y mod 100 = 0 then 1 else 0)" unfolding b_def by (rule div_step) simp
  have c: "y div 400 = c + (if y mod 400 = 0 then 1 else 0)" unfolding c_def by (rule div_step) simp
  have d: "y mod 4 = 0" if "y mod 100 = 0"
  proof -
    from that have "100 dvd y" by (simp add: dvd_eq_mod_eq_0)
    then have "4 dvd y" using dvd_trans [of 4 100 y] by simp
    then show ?thesis by (simp add: dvd_eq_mod_eq_0)
  qed
  have e: "y mod 100 = 0" if "y mod 400 = 0"
  proof -
    from that have "400 dvd y" by (simp add: dvd_eq_mod_eq_0)
    then have "100 dvd y" using dvd_trans [of 100 400 y] by simp
    then show ?thesis by (simp add: dvd_eq_mod_eq_0)
  qed
  have l: "days_before_year (y + 1) = y * 365 + y div 4 - y div 100 + y div 400"
    by (simp add: days_before_year_def)
  have r: "days_before_year y = (y - 1) * 365 + a - b + c"
    by (simp add: days_before_year_def a_def b_def c_def)
  show ?thesis
  proof (cases "y mod 4 = 0")
    case False
    with d have n100: "y mod 100 \<noteq> 0" by auto
    with e have n400: "y mod 400 \<noteq> 0" by auto
    note n100 n400
    with False n100 n400 show ?thesis unfolding l r a b c is_leap_def by simp
  next
    case True
    show ?thesis
    proof (cases "y mod 100 = 0")
      case False
      with e have "y mod 400 \<noteq> 0" by auto
      with True False show ?thesis unfolding l r a b c is_leap_def by simp
    next
      case h: True
      show ?thesis
      proof (cases "y mod 400 = 0")
        case True
        with h d show ?thesis unfolding l r a b c is_leap_def by simp
      next
        case False
        with h d show ?thesis unfolding l r a b c is_leap_def by simp
      qed
    qed
  qed
qed

lemma days_before_month_next:
  "1 \<le> m \<Longrightarrow> m < 12 \<Longrightarrow> days_before_month y (m + 1) = days_before_month y m + days_in_month y m"
proof -
  assume "1 \<le> m" "m < 12"
  then have "m = 1 \<or> m = 2 \<or> m = 3 \<or> m = 4 \<or> m = 5 \<or> m = 6 \<or> m = 7 \<or> m = 8 \<or> m = 9 \<or> m = 10 \<or> m = 11"
    by arith
  then show ?thesis
    by (elim disjE) (simp_all add: days_before_month_def days_in_month_def DAYS_BEFORE_MONTH_def DAYS_IN_MONTH_def)
qed

lemma days_before_month_12: "days_before_month y 12 + 31 = 365 + (if is_leap y then 1 else 0)"
  by (simp add: days_before_month_def DAYS_BEFORE_MONTH_def)

lemma days_in_month_12: "days_in_month y 12 = 31"
  by (simp add: days_in_month_def DAYS_IN_MONTH_def)

lemma days_before_month_1: "days_before_month y 1 = 0"
  by (simp add: days_before_month_def DAYS_BEFORE_MONTH_def)

lemma toordinal_next_day: "valid_date d \<Longrightarrow> toordinal (next_day d) = toordinal d + 1"
proof -
  assume v: "valid_date d"
  show ?thesis
  proof (cases "day d < days_in_month (year d) (month d)")
    case True
    then show ?thesis by (simp add: next_day_def toordinal_def)
  next
    case False
    with v have last: "day d = days_in_month (year d) (month d)" by (simp add: valid_date_def)
    show ?thesis
    proof (cases "month d < 12")
      case True
      with v have "days_before_month (year d) (month d + 1) =
                     days_before_month (year d) (month d) + days_in_month (year d) (month d)"
        by (intro days_before_month_next) (simp_all add: valid_date_def)
      with True False last show ?thesis by (simp add: next_day_def toordinal_def)
    next
      case False
      with v have m: "month d = 12" by (simp add: valid_date_def)
      with last have dd: "day d = 31" by (simp add: days_in_month_12)
      have "toordinal (next_day d) = days_before_year (year d + 1) + 1"
        using m dd by (simp add: next_day_def toordinal_def days_in_month_12 days_before_month_1)
      also have "\<dots> = days_before_year (year d) + (days_before_month (year d) 12 + 31) + 1"
        by (simp only: days_before_year_Suc days_before_month_12)
      also have "\<dots> = toordinal d + 1" using m dd by (simp add: toordinal_def)
      finally show ?thesis .
    qed
  qed
qed

lemma days_in_month_pos: "1 \<le> m \<Longrightarrow> m \<le> 12 \<Longrightarrow> 28 \<le> days_in_month y m"
proof -
  assume "1 \<le> m" "m \<le> 12"
  then have "m = 1 \<or> m = 2 \<or> m = 3 \<or> m = 4 \<or> m = 5 \<or> m = 6 \<or> m = 7 \<or> m = 8 \<or> m = 9 \<or> m = 10 \<or> m = 11 \<or> m = 12"
    by (rule month_cases)
  then show ?thesis
    by (elim disjE) (simp_all add: days_in_month_def DAYS_IN_MONTH_def)
qed

lemma next_day_valid:
  "valid_date d \<Longrightarrow> year (next_day d) \<le> MAXYEAR \<Longrightarrow> valid_date (next_day d)"
proof -
  assume v: "valid_date d" and y: "year (next_day d) \<le> MAXYEAR"
  have p: "1 \<le> days_in_month yy mm" if "1 \<le> mm" "mm \<le> 12" for yy mm
    using days_in_month_pos [OF that, of yy] by simp
  show ?thesis
  proof (cases "day d < days_in_month (year d) (month d)")
    case True
    with v show ?thesis by (simp add: next_day_def valid_date_def)
  next
    case False
    show ?thesis
    proof (cases "month d < 12")
      case True
      with v have "1 \<le> days_in_month (year d) (month d + 1)" by (intro p) (simp_all add: valid_date_def)
      with v True False show ?thesis by (simp add: next_day_def valid_date_def)
    next
      case nm: False
      have "1 \<le> days_in_month (year d + 1) 1" by (intro p) simp_all
      with v False nm y show ?thesis by (simp add: next_day_def valid_date_def MINYEAR_def)
    qed
  qed
qed

lemma next_day_overflow:
  "valid_date d \<Longrightarrow> year (next_day d) > MAXYEAR \<Longrightarrow> d = \<lparr>year = 9999, month = 12, day = 31\<rparr>"
proof -
  assume v: "valid_date d" and y: "year (next_day d) > MAXYEAR"
  from v have yl: "year d \<le> MAXYEAR" by (simp add: valid_date_def)
  have 1: "\<not> day d < days_in_month (year d) (month d)"
    using y yl by (auto simp: next_day_def)
  have 2: "\<not> month d < 12" using y yl 1 by (auto simp: next_day_def)
  from 2 v have m: "month d = 12" by (simp add: valid_date_def)
  from 1 v m have dd: "day d = 31" by (simp add: valid_date_def days_in_month_12)
  from y 1 2 yl have "year d = 9999" by (simp add: next_day_def MAXYEAR_def)
  with m dd show ?thesis by simp
qed

lemma weekday_last: "weekday \<lparr>year = 9999, month = 12, day = 31\<rparr> = 4"
  by (simp add: weekday_def toordinal_def days_before_year_def days_before_month_def
      DAYS_BEFORE_MONTH_def is_leap_def)

lemma weekday_next_day: "valid_date d \<Longrightarrow> weekday (next_day d) = (weekday d + 1) mod 7"
  by (simp add: weekday_def toordinal_next_day mod_simps)

lemma congrat_date_eq:
  assumes "valid_date b"
  shows "congrat_date b = Inr (congratulation_date b)"
proof -
  have one: "year (next_day b) \<le> MAXYEAR" if "weekday b = 5 \<or> weekday b = 6"
  proof (rule ccontr)
    assume "\<not> year (next_day b) \<le> MAXYEAR"
    then have "b = \<lparr>year = 9999, month = 12, day = 31\<rparr>"
      using next_day_overflow [OF assms] by simp
    with that weekday_last show False by simp
  qed
  have two: "year (next_day (next_day b)) \<le> MAXYEAR" if "weekday b = 5"
  proof (rule ccontr)
    assume a: "\<not> year (next_day (next_day b)) \<le> MAXYEAR"
    from that have y1: "year (next_day b) \<le> MAXYEAR" using one by simp
    then have v1: "valid_date (next_day b)" using next_day_valid [OF assms] by simp
    from a have "next_day b = \<lparr>year = 9999, month = 12, day = 31\<rparr>"
      using next_day_overflow [OF v1] by simp
    then have "weekday (next_day b) = 4" using weekday_last by simp
    with that show False using weekday_next_day [OF assms] by simp
  qed
  show ?thesis
    using one two
    by (auto simp: congrat_date_def congratulation_date_def numeral_2_eq_2)
qed

lemma congratulation_date_props:
  assumes "valid_date occ"
  shows "valid_date (congratulation_date occ) \<and>
         toordinal (congratulation_date occ) =
           toordinal occ + (if weekday occ = 5 then 2 else if weekday occ = 6 then 1 else 0)"
proof -
  from congrat_date_eq [OF assms] have e: "congrat_date occ = Inr (congratulation_date occ)" .
  show ?thesis
  proof (cases "weekday occ = 5")
    case True
    with e have e2: "add_days occ 2 = Inr (next_day (next_day occ))"
      by (simp add: congrat_date_def congratulation_date_def)
    then have y1: "year (next_day occ) \<le> MAXYEAR" and y2: "year (next_day (next_day occ)) \<le> MAXYEAR"
      by (auto simp: numeral_2_eq_2 split: if_splits)
    have v1: "valid_date (next_day occ)" using next_day_valid [OF assms y1] .
    have v2: "valid_date (next_day (next_day occ))" using next_day_valid [OF v1 y2] .
    show ?thesis using True v2 toordinal_next_day [OF assms] toordinal_next_day [OF v1]
      by (simp add: congratulation_date_def)
  next
    case False
    show ?thesis
    proof (cases "weekday occ = 6")
      case True
      with e False have e1: "add_days occ 1 = Inr (next_day occ)"
        by (simp add: congrat_date_def congratulation_date_def)
      then have y1: "year (next_day occ) \<le> MAXYEAR" by (auto split: if_splits)
      have v1: "valid_date (next_day occ)" using next_day_valid [OF assms y1] .
      show ?thesis using True v1 toordinal_next_day [OF assms] by (simp add: congratulation_date_def)
    next
      case f6: False
      with False assms show ?thesis by (simp add: congratulation_date_def)
    qed
  qed
qed

section \<open>AddressBook.get_upcoming_birthdays\<close>

lemma bday_this_year_Inr:
  assumes "bday_this_year today bday = Inr occ"
  shows "occ = spec_occurrence today bday \<and> valid_date occ"
proof (cases "replace_year bday (year today)")
  case (Inl e)
  with assms show ?thesis by (simp add: bday_this_year_def)
next
  case (Inr b)
  then have b: "b = \<lparr>year = year today, month = month bday, day = day bday\<rparr>" "valid_date b"
    using mk_date_Inr [of "year today" "month bday" "day bday" b] by (auto simp: replace_year_def)
  show ?thesis
  proof (cases "date_less b today")
    case True
    with assms Inr have "replace_year b (year today + 1) = Inr occ" by (simp add: bday_this_year_def)
    then have "occ = \<lparr>year = year today + 1, month = month b, day = day b\<rparr> \<and> valid_date occ"
      using mk_date_Inr [of "year today + 1" "month b" "day b" occ] by (auto simp: replace_year_def)
    then have o1: "occ = \<lparr>year = year today + 1, month = month b, day = day b\<rparr>"
      and o2: "valid_date occ" by blast+
    have "spec_occurrence today bday = \<lparr>year = year today + 1, month = month bday, day = day bday\<rparr>"
      using True b(1) by (simp add: spec_occurrence_def)
    with o1 b(1) have "occ = spec_occurrence today bday" by simp
    with o2 show ?thesis by blast
  next
    case False
    with assms Inr have ob: "occ = b" by (simp add: bday_this_year_def)
    have "spec_occurrence today bday = b"
      using False b(1) by (simp add: spec_occurrence_def)
    with ob b(2) show ?thesis by blast
  qed
qed

lemma upcoming_entry_eq:
  assumes "occurrence_exists today r"
  shows "upcoming_entry today r = Inr (spec_entry today r)"
proof (cases "birthday r")
  case None
  then show ?thesis by (simp add: upcoming_entry_def spec_entry_def stored_date_def)
next
  case (Some v)
  with assms obtain bday occ where p: "strptime v = Inr bday" "bday_this_year today bday = Inr occ"
    by (auto simp: occurrence_exists_def split: sum.splits)
  from bday_this_year_Inr [OF p(2)] have occ: "occ = spec_occurrence today bday" "valid_date occ"
    by blast+
  have c: "congrat_date occ = Inr (congratulation_date occ)" using occ(2) by (rule congrat_date_eq)
  have sd: "stored_date r = Some bday" using Some p(1) by (simp add: stored_date_def)
  show ?thesis
    using Some p c sd occ(1)
    by (simp add: upcoming_entry_def spec_entry_def in_window_def spec_delta_def Let_def)
qed

lemma upcoming_loop_eq:
  "list_all (occurrence_exists today) rs \<Longrightarrow>
   upcoming_loop today rs acc = Inr (acc @ List.map_filter (spec_entry today) rs)"
proof (induction rs arbitrary: acc)
  case Nil
  then show ?case by simp
next
  case (Cons r rs)
  then have e: "upcoming_entry today r = Inr (spec_entry today r)" by (simp add: upcoming_entry_eq)
  from Cons have rest: "list_all (occurrence_exists today) rs" by simp
  show ?case
  proof (cases "spec_entry today r")
    case None
    with e Cons.IH [OF rest, of acc] show ?thesis by simp
  next
    case (Some u)
    with e Cons.IH [OF rest, of "acc @ [u]"] show ?thesis by simp
  qed
qed

lemma upcoming_loop_raises:
  "r \<in> set rs \<Longrightarrow> upcoming_entry today r = Inl e \<Longrightarrow> \<exists>e'. upcoming_loop today rs acc = Inl e'"
proof (induction rs arbitrary: acc)
  case Nil
  then show ?case by simp
next
  case (Cons a rs)
  show ?case
  proof (cases "upcoming_entry today a")
    case (Inl e')
    then show ?thesis by simp
  next
    case (Inr u)
    with Cons.prems have "r \<in> set rs" by auto
    with Cons.IH Cons.prems(2) have "\<exists>e'. upcoming_loop today rs acc' = Inl e'" for acc' by blast
    with Inr show ?thesis by (cases u) simp_all
  qed
qed

lemma names_of_entries:
  "map fst (List.map_filter (spec_entry today) rs) = map name (filter (included today) rs)"
proof (induction rs)
  case Nil
  show ?case by simp
next
  case (Cons r rs)
  then show ?case
    by (auto simp: spec_entry_def included_def split: option.splits)
qed

text \<open>
  What the query does whenever it returns, that is, whenever the occurrence of every stored
  birthday can be built: the records it includes are, in the order of the book, exactly
  those with a birthday whose occurrence (the birthday's day and month in today's year,
  moved to the next year exactly when that date is strictly before today) is at a
  whole-day difference \<open>delta\<close> from today with \<open>0 \<le> delta \<le> 7\<close>.
\<close>

lemma upcoming_names_when_returns:
  assumes "list_all (occurrence_exists today) (map snd book)"
  shows "\<exists>res. get_upcoming_birthdays today book = Inr res \<and>
           map fst res = map name (filter (included today) (map snd book))"
  using upcoming_loop_eq [OF assms, of "[]"]
  by (simp add: get_upcoming_birthdays_def names_of_entries)

text \<open>
  The scenario of the specification at the end of a year: on 31.12.2024 the birthday
  02.01.1990 has its occurrence in 2025, two days ahead, and a birthday on 30.12 has its
  occurrence almost a year ahead.
\<close>

lemma upcoming_across_new_year:
  "get_upcoming_birthdays \<lparr>year = 2024, month = 12, day = 31\<rparr>
     [(''Zoe'', \<lparr>name = ''Zoe'', phones = [], birthday = Some ''02.01.1990''\<rparr>),
      (''Yan'', \<lparr>name = ''Yan'', phones = [], birthday = Some ''30.12.1990''\<rparr>)] =
     Inr [(''Zoe'', ''02.01.2025'')]"
  by code_simp

text \<open>
  Claim C2 says that the query includes every record whose occurrence is in the window, for
  every today. The code does not: on 25.02.2025 the birthday 26.02.2000 of Ann has the
  occurrence 26.02.2025, one day ahead, and the query includes her when the book holds her
  alone; when the book also holds a birthday on 29.02.2024, the query raises the ValueError
  of \<open>replace(year=2025)\<close> and returns no result at all.
\<close>

theorem upcoming_raises_with_record_in_window:
  "spec_occurrence \<lparr>year = 2025, month = 2, day = 25\<rparr> \<lparr>year = 2000, month = 2, day = 26\<rparr> =
     \<lparr>year = 2025, month = 2, day = 26\<rparr> \<and>
   spec_delta \<lparr>year = 2025, month = 2, day = 25\<rparr> \<lparr>year = 2000, month = 2, day = 26\<rparr> = 1 \<and>
   included \<lparr>year = 2025, month = 2, day = 25\<rparr>
     \<lparr>name = ''Ann'', phones = [], birthday = Some ''26.02.2000''\<rparr> \<and>
   get_upcoming_birthdays \<lparr>year = 2025, month = 2, day = 25\<rparr>
     [(''Ann'', \<lparr>name = ''Ann'', phones = [], birthday = Some ''26.02.2000''\<rparr>)] =
     Inr [(''Ann'', ''26.02.2025'')] \<and>
   get_upcoming_birthdays \<lparr>year = 2025, month = 2, day = 25\<rparr>
     [(''Ann'', \<lparr>name = ''Ann'', phones = [], birthday = Some ''26.02.2000''\<rparr>),
      (''Leo'', \<lparr>name = ''Leo'', phones = [], birthday = Some ''29.02.2024''\<rparr>)] =
     Inl (ValueError ''day is out of range for month'')"
  by code_simp

text \<open>
  Claim C3. Under the same condition, the query reports for every included record the
  congratulation date of its occurrence: two days after an occurrence on a Saturday, one
  day after an occurrence on a Sunday, the occurrence itself otherwise. Which records are
  included is decided by the window of the unshifted occurrence alone, and the shift never
  raises.
\<close>

theorem upcoming_reports_weekend_shift:
  assumes "list_all (occurrence_exists today) (map snd book)"
  shows "get_upcoming_birthdays today book = Inr (List.map_filter (spec_entry today) (map snd book)) \<and>
         (\<forall>occ. valid_date occ \<longrightarrow>
            valid_date (congratulation_date occ) \<and>
            toordinal (congratulation_date occ) =
              toordinal occ + (if weekday occ = 5 then 2 else if weekday occ = 6 then 1 else 0))"
  using upcoming_loop_eq [OF assms, of "[]"] congratulation_date_props
  by (simp add: get_upcoming_birthdays_def)

text \<open>
  The theorem on 15.06.2024: a Monday is reported as it is, a Sunday and a Saturday are
  both moved to the Monday after.
\<close>

theorem upcoming_reports_weekend_shift_witness:
  "list_all (occurrence_exists \<lparr>year = 2024, month = 6, day = 15\<rparr>)
     (map snd [(''Ann'', \<lparr>name = ''Ann'', phones = [], birthday = Some ''17.06.2024''\<rparr>),
               (''Bob'', \<lparr>name = ''Bob'', phones = [], birthday = Some ''16.06.2024''\<rparr>),
               (''Eve'', \<lparr>name = ''Eve'', phones = [], birthday = Some ''22.06.2001''\<rparr>)]) \<and>
   get_upcoming_birthdays \<lparr>year = 2024, month = 6, day = 15\<rparr>
     [(''Ann'', \<lparr>name = ''Ann'', phones = [], birthday = Some ''17.06.2024''\<rparr>),
      (''Bob'', \<lparr>name = ''Bob'', phones = [], birthday = Some ''16.06.2024''\<rparr>),
      (''Eve'', \<lparr>name = ''Eve'', phones = [], birthday = Some ''22.06.2001''\<rparr>)] =
     Inr [(''Ann'', ''17.06.2024''), (''Bob'', ''17.06.2024''), (''Eve'', ''24.06.2024'')] \<and>
   valid_date \<lparr>year = 2024, month = 6, day = 22\<rparr> \<and>
   weekday \<lparr>year = 2024, month = 6, day = 22\<rparr> = 5 \<and>
   toordinal (congratulation_date \<lparr>year = 2024, month = 6, day = 22\<rparr>) =
     toordinal \<lparr>year = 2024, month = 6, day = 22\<rparr> + 2"
proof -
  let ?today = "\<lparr>year = 2024, month = 6, day = 15\<rparr>"
  let ?book = "[(''Ann'', \<lparr>name = ''Ann'', phones = [], birthday = Some ''17.06.2024''\<rparr>),
               (''Bob'', \<lparr>name = ''Bob'', phones = [], birthday = Some ''16.06.2024''\<rparr>),
               (''Eve'', \<lparr>name = ''Eve'', phones = [], birthday = Some ''22.06.2001''\<rparr>)]"
  have h: "list_all (occurrence_exists ?today) (map snd ?book)" by code_simp
  have f: "List.map_filter (spec_entry ?today) (map snd ?book) =
             [(''Ann'', ''17.06.2024''), (''Bob'', ''17.06.2024''), (''Eve'', ''24.06.2024'')]"
    by code_simp
  have v: "valid_date \<lparr>year = 2024, month = 6, day = 22\<rparr>" by code_simp
  have w: "weekday \<lparr>year = 2024, month = 6, day = 22\<rparr> = 5" by code_simp
  from upcoming_reports_weekend_shift [OF h]
  have q: "get_upcoming_birthdays ?today ?book = Inr (List.map_filter (spec_entry ?today) (map snd ?book))"
    and s: "\<forall>occ. valid_date occ \<longrightarrow>
            valid_date (congratulation_date occ) \<and>
            toordinal (congratulation_date occ) =
              toordinal occ + (if weekday occ = 5 then 2 else if weekday occ = 6 then 1 else 0)"
    by blast+
  from s v w have t: "toordinal (congratulation_date \<lparr>year = 2024, month = 6, day = 22\<rparr>) =
     toordinal \<lparr>year = 2024, month = 6, day = 22\<rparr> + 2" by simp
  show ?thesis using h q f v w t by simp
qed

text \<open>
  Claim C1. A record whose stored birthday is a 29 February makes the query raise when
  today's year is not a leap year: \<open>replace(year=today.year)\<close> raises the ValueError of
  the date constructor, the loop has no handler for it, and \<open>get_upcoming_birthdays\<close>
  raises for every book that holds the record.
\<close>

theorem feb29_raises:
  assumes "r \<in> set (map snd book)" and "stored_date r = Some bday"
    and "month bday = 2" and "day bday = 29"
    and "valid_date today" and "\<not> is_leap (year today)"
  shows "replace_year bday (year today) = Inl (ValueError ''day is out of range for month'') \<and>
         upcoming_entry today r = Inl (ValueError ''day is out of range for month'') \<and>
         (\<exists>e. get_upcoming_birthdays today book = Inl e) \<and>
         get_upcoming_birthdays today [(name r, r)] = Inl (ValueError ''day is out of range for month'')"
proof -
  have dim: "days_in_month (year today) 2 = 28"
    using assms(6) by (simp add: days_in_month_def DAYS_IN_MONTH_def)
  have a: "replace_year bday (year today) = Inl (ValueError ''day is out of range for month'')"
    using assms(3,4,5) dim by (simp add: replace_year_def mk_date_def valid_date_def)
  from assms(2) obtain v where v: "birthday r = Some v" "strptime v = Inr bday"
    by (auto simp: stored_date_def split: option.splits sum.splits)
  have b: "upcoming_entry today r = Inl (ValueError ''day is out of range for month'')"
    using v a by (simp add: upcoming_entry_def bday_this_year_def)
  have c: "\<exists>e. get_upcoming_birthdays today book = Inl e"
    unfolding get_upcoming_birthdays_def using assms(1) b by (rule upcoming_loop_raises)
  have d: "get_upcoming_birthdays today [(name r, r)] = Inl (ValueError ''day is out of range for month'')"
    using b by (simp add: get_upcoming_birthdays_def)
  show ?thesis using a b c d by simp
qed

text \<open>The theorem for the birthday 29.02.2024 and today 25.02.2025.\<close>

theorem feb29_raises_witness:
  "\<lparr>name = ''Leo'', phones = [], birthday = Some ''29.02.2024''\<rparr>
     \<in> set (map snd [(''Leo'', \<lparr>name = ''Leo'', phones = [], birthday = Some ''29.02.2024''\<rparr>)]) \<and>
   stored_date \<lparr>name = ''Leo'', phones = [], birthday = Some ''29.02.2024''\<rparr> =
     Some \<lparr>year = 2024, month = 2, day = 29\<rparr> \<and>
   valid_date \<lparr>year = 2025, month = 2, day = 25\<rparr> \<and> \<not> is_leap 2025 \<and>
   get_upcoming_birthdays \<lparr>year = 2025, month = 2, day = 25\<rparr>
     [(''Leo'', \<lparr>name = ''Leo'', phones = [], birthday = Some ''29.02.2024''\<rparr>)] =
     Inl (ValueError ''day is out of range for month'')"
proof -
  let ?r = "\<lparr>name = ''Leo'', phones = [], birthday = Some ''29.02.2024''\<rparr>"
  let ?today = "\<lparr>year = 2025, month = 2, day = 25\<rparr>"
  have m: "?r \<in> set (map snd [(''Leo'', ?r)])" by simp
  have s: "stored_date ?r = Some \<lparr>year = 2024, month = 2, day = 29\<rparr>" by code_simp
  have v: "valid_date ?today" by code_simp
  have l: "\<not> is_leap (year ?today)" by code_simp
  have l': "\<not> is_leap 2025" by code_simp
  show ?thesis
    using m s v l' feb29_raises [OF m s _ _ v l] by simp
qed

section \<open>Birthday validation\<close>

lemma in_set_concat_map:
  "z \<in> set (concat (map (case_prod g) xs)) \<longleftrightarrow> (\<exists>a r. (a, r) \<in> set xs \<and> z \<in> set (g a r))"
  by auto

lemma in_set_map_prod:
  "z \<in> set (map (case_prod h) xs) \<longleftrightarrow> (\<exists>a r. (a, r) \<in> set xs \<and> z = h a r)"
  by auto

lemma in_set_one: "(t, r) \<in> set (one p s) \<longleftrightarrow> (\<exists>a. s = a # r \<and> t = [a] \<and> p a)"
  by (cases s) auto

lemma in_set_two: "(t, r) \<in> set (two p q s) \<longleftrightarrow> (\<exists>a b. s = a # b # r \<and> t = [a, b] \<and> p a \<and> q b)"
proof (cases s)
  case Nil
  then show ?thesis by simp
next
  case (Cons a s')
  then show ?thesis by (cases s') auto
qed

lemma day_text_cases:
  "day_text t \<longleftrightarrow>
     (\<exists>a. t = [a] \<and> in_range (CHR ''1'') (CHR ''9'') a) \<or>
     (\<exists>a b. t = [a, b] \<and>
        ((a = CHR ''3'' \<and> in_range (CHR ''0'') (CHR ''1'') b) \<or>
         (in_range (CHR ''1'') (CHR ''2'') a \<and> re_digit b) \<or>
         ((a = CHR ''0'' \<or> a = CHR '' '') \<and> in_range (CHR ''1'') (CHR ''9'') b)))"
  by (auto simp: day_text_def split: list.splits)

lemma month_text_cases:
  "month_text t \<longleftrightarrow>
     (\<exists>a. t = [a] \<and> in_range (CHR ''1'') (CHR ''9'') a) \<or>
     (\<exists>a b. t = [a, b] \<and>
        ((a = CHR ''1'' \<and> in_range (CHR ''0'') (CHR ''2'') b) \<or>
         (a = CHR ''0'' \<and> in_range (CHR ''1'') (CHR ''9'') b)))"
  by (auto simp: month_text_def split: list.splits)

lemma year_text_cases:
  "year_text t \<longleftrightarrow>
     (\<exists>a b c d. t = [a, b, c, d] \<and> re_digit a \<and> re_digit b \<and> re_digit c \<and> re_digit d)"
  by (auto simp: year_text_def split: list.splits)

lemma in_set_re_d: "(t, r) \<in> set (re_d s) \<longleftrightarrow> s = t @ r \<and> day_text t"
  unfolding re_d_def set_append Un_iff in_set_one in_set_two day_text_cases by auto

lemma in_set_re_m: "(t, r) \<in> set (re_m s) \<longleftrightarrow> s = t @ r \<and> month_text t"
  unfolding re_m_def set_append Un_iff in_set_one in_set_two month_text_cases by auto

lemma in_set_re_dot: "(t, r) \<in> set (re_dot s) \<longleftrightarrow> s = CHR ''.'' # r \<and> t = ''.''"
  unfolding re_dot_def in_set_one by auto

lemma in_set_re_Y: "(t, r) \<in> set (re_Y s) \<longleftrightarrow> s = t @ r \<and> year_text t"
proof -
  have "(t, r) \<in> set (re_Y s) \<longleftrightarrow>
          (\<exists>a r1 b. (a, r1) \<in> set (two re_digit re_digit s) \<and>
                    (b, r) \<in> set (two re_digit re_digit r1) \<and> t = a @ b)"
    unfolding re_Y_def in_set_concat_map in_set_map_prod by blast
  also have "\<dots> \<longleftrightarrow> s = t @ r \<and> year_text t"
    unfolding in_set_two year_text_cases by auto
  finally show ?thesis .
qed

lemma in_set_re_match:
  "(d, m, y, r) \<in> set (re_match s) \<longleftrightarrow>
     s = d @ ''.'' @ m @ ''.'' @ y @ r \<and> day_text d \<and> month_text m \<and> year_text y"
proof -
  have "(d, m, y, r) \<in> set (re_match s) \<longleftrightarrow>
          (\<exists>r1 x1 r2 r3 x2 r4. (d, r1) \<in> set (re_d s) \<and> (x1, r2) \<in> set (re_dot r1) \<and>
             (m, r3) \<in> set (re_m r2) \<and> (x2, r4) \<in> set (re_dot r3) \<and> (y, r) \<in> set (re_Y r4))"
    unfolding re_match_def in_set_concat_map in_set_map_prod by blast
  also have "\<dots> \<longleftrightarrow> s = d @ ''.'' @ m @ ''.'' @ y @ r \<and> day_text d \<and> month_text m \<and> year_text y"
    unfolding in_set_re_d in_set_re_m in_set_re_dot in_set_re_Y by auto
  finally show ?thesis .
qed

lemma day_text_no_dot: "day_text d \<Longrightarrow> CHR ''.'' \<notin> set d"
  unfolding day_text_cases by (auto simp: in_range_def re_digit_def)

lemma month_text_no_dot: "month_text m \<Longrightarrow> CHR ''.'' \<notin> set m"
  unfolding month_text_cases by (auto simp: in_range_def)

lemma year_text_length: "year_text y \<Longrightarrow> length y = 4"
  unfolding year_text_cases by auto

lemma split_at_first:
  "x \<notin> set xs \<Longrightarrow> x \<notin> set xs' \<Longrightarrow> xs @ x # ys = xs' @ x # ys' \<Longrightarrow> xs = xs' \<and> ys = ys'"
proof (induction xs arbitrary: xs')
  case Nil
  then show ?case by (cases xs') auto
next
  case (Cons a xs)
  then show ?case by (cases xs') auto
qed

lemma re_match_unique:
  assumes "(d, m, y, r) \<in> set (re_match s)" and "(d', m', y', r') \<in> set (re_match s)"
  shows "d = d' \<and> m = m' \<and> y = y' \<and> r = r'"
proof -
  define dot where "dot = CHR ''.''"
  from assms(1) have a: "s = d @ dot # (m @ dot # (y @ r))"
    and t: "day_text d" "month_text m" "year_text y"
    by (simp_all add: in_set_re_match dot_def)
  from assms(2) have a': "s = d' @ dot # (m' @ dot # (y' @ r'))"
    and t': "day_text d'" "month_text m'" "year_text y'"
    by (simp_all add: in_set_re_match dot_def)
  have nd: "dot \<notin> set d" "dot \<notin> set d'" "dot \<notin> set m" "dot \<notin> set m'"
    unfolding dot_def using t t' by (simp_all add: day_text_no_dot month_text_no_dot)
  have e0: "d @ dot # (m @ dot # (y @ r)) = d' @ dot # (m' @ dot # (y' @ r'))"
    using a a' by (rule trans [OF sym])
  have e1: "d = d' \<and> m @ dot # (y @ r) = m' @ dot # (y' @ r')"
    using nd(1) nd(2) e0 by (rule split_at_first)
  then have "m @ dot # (y @ r) = m' @ dot # (y' @ r')" by (rule conjunct2)
  with nd(3) nd(4) have e2: "m = m' \<and> y @ r = y' @ r'" by (rule split_at_first)
  have l: "length y = length y'"
    using year_text_length [OF t(3)] year_text_length [OF t'(3)] by (rule trans [OF _ sym])
  from e2 have "y @ r = y' @ r'" by (rule conjunct2)
  with l have e3: "y = y' \<and> r = r'" by simp
  from e1 have f1: "d = d'" by (rule conjunct1)
  from e2 have f2: "m = m'" by (rule conjunct1)
  from e3 have f3: "y = y'" and f4: "r = r'" by (rule conjunct1, rule conjunct2)
  show ?thesis by (intro conjI f1 f2 f3 f4)
qed

lemma strptime_of_fields:
  assumes "day_text d" and "month_text m" and "year_text y"
  shows "strptime (d @ ''.'' @ m @ ''.'' @ y) = mk_date (py_int y) (py_int m) (py_int d)"
proof -
  let ?s = "d @ ''.'' @ m @ ''.'' @ y"
  have mem: "(d, m, y, []) \<in> set (re_match ?s)" using assms by (simp add: in_set_re_match)
  then obtain x xs where c: "re_match ?s = x # xs" by (cases "re_match ?s") auto
  then have "x \<in> set (re_match ?s)" by simp
  moreover obtain d' m' y' r' where x: "x = (d', m', y', r')" by (cases x) auto
  ultimately have "d' = d \<and> m' = m \<and> y' = y \<and> r' = []"
    using re_match_unique [OF _ mem, of d' m' y' r'] by simp
  with c x show ?thesis by (simp add: strptime_def)
qed

lemma strptime_Inr:
  assumes "strptime s = Inr dt"
  shows "\<exists>d m y. s = d @ ''.'' @ m @ ''.'' @ y \<and> day_text d \<and> month_text m \<and> year_text y \<and>
           mk_date (py_int y) (py_int m) (py_int d) = Inr dt"
proof (cases "re_match s")
  case Nil
  with assms show ?thesis by (simp add: strptime_def)
next
  case (Cons x xs)
  obtain d m y r where x: "x = (d, m, y, r)" by (cases x) auto
  from Cons x assms have r: "r = []" and k: "mk_date (py_int y) (py_int m) (py_int d) = Inr dt"
    by (auto simp: strptime_def split: if_splits)
  from Cons x have "(d, m, y, r) \<in> set (re_match s)" by simp
  with r have "s = d @ ''.'' @ m @ ''.'' @ y \<and> day_text d \<and> month_text m \<and> year_text y"
    by (simp add: in_set_re_match)
  with k show ?thesis by blast
qed

lemma strptime_Inl: "strptime s = Inl e \<Longrightarrow> \<exists>msg. e = ValueError msg"
  by (auto simp: strptime_def mk_date_def split: list.splits if_splits prod.splits)

lemma mk_date_iff: "(\<exists>dt. mk_date y m d = Inr dt) \<longleftrightarrow> valid_date \<lparr>year = y, month = m, day = d\<rparr>"
  by (auto simp: mk_date_def valid_date_def)

lemma fields_Some_iff:
  "fields s = Some (d, m, y) \<longleftrightarrow>
     s = d @ ''.'' @ m @ ''.'' @ y \<and> CHR ''.'' \<notin> set d \<and> CHR ''.'' \<notin> set m"
proof
  assume f: "fields s = Some (d, m, y)"
  let ?P = "\<lambda>c. c \<noteq> CHR ''.''"
  from f obtain c r where r: "dropWhile ?P s = c # r"
    by (auto simp: fields_def split: list.splits)
  with f obtain c' where y: "dropWhile ?P r = c' # y"
    and d: "d = takeWhile ?P s" and m: "m = takeWhile ?P r"
    by (auto simp: fields_def split: list.splits)
  have c: "c = CHR ''.''" using hd_dropWhile [of ?P s] r by auto
  have c': "c' = CHR ''.''" using hd_dropWhile [of ?P r] y by auto
  have "s = takeWhile ?P s @ dropWhile ?P s" by simp
  also have "\<dots> = d @ CHR ''.'' # r" using r c d by simp
  also have "r = takeWhile ?P r @ dropWhile ?P r" by simp
  also have "\<dots> = m @ CHR ''.'' # y" using y c' m by simp
  finally have "s = d @ ''.'' @ m @ ''.'' @ y" by simp
  moreover have "CHR ''.'' \<notin> set d" using d set_takeWhileD [of "CHR ''.''" ?P s] by auto
  moreover have "CHR ''.'' \<notin> set m" using m set_takeWhileD [of "CHR ''.''" ?P r] by auto
  ultimately show "s = d @ ''.'' @ m @ ''.'' @ y \<and> CHR ''.'' \<notin> set d \<and> CHR ''.'' \<notin> set m"
    by blast
next
  assume a: "s = d @ ''.'' @ m @ ''.'' @ y \<and> CHR ''.'' \<notin> set d \<and> CHR ''.'' \<notin> set m"
  let ?P = "\<lambda>c. c \<noteq> CHR ''.''"
  from a have s: "s = d @ CHR ''.'' # (m @ CHR ''.'' # y)" by simp
  have pd: "\<And>x. x \<in> set d \<Longrightarrow> ?P x" using a by auto
  have pm: "\<And>x. x \<in> set m \<Longrightarrow> ?P x" using a by auto
  have 1: "dropWhile ?P s = CHR ''.'' # (m @ CHR ''.'' # y)"
    unfolding s using pd by (simp add: dropWhile_append2)
  have 2: "takeWhile ?P s = d" unfolding s using pd by (simp add: takeWhile_append2)
  have 3: "dropWhile ?P (m @ CHR ''.'' # y) = CHR ''.'' # y" using pm by (simp add: dropWhile_append2)
  have 4: "takeWhile ?P (m @ CHR ''.'' # y) = m" using pm by (simp add: takeWhile_append2)
  show "fields s = Some (d, m, y)"
    unfolding fields_def 1 2 by (simp add: 3 4)
qed

lemma strptime_succeeds_iff: "(\<exists>dt. strptime s = Inr dt) \<longleftrightarrow> birthday_text s"
proof
  assume "\<exists>dt. strptime s = Inr dt"
  then obtain dt where "strptime s = Inr dt" by blast
  from strptime_Inr [OF this] obtain d m y where
    s: "s = d @ ''.'' @ m @ ''.'' @ y" and t: "day_text d" "month_text m" "year_text y"
    and k: "mk_date (py_int y) (py_int m) (py_int d) = Inr dt" by blast
  have f: "fields s = Some (d, m, y)"
    using s day_text_no_dot [OF t(1)] month_text_no_dot [OF t(2)] by (simp only: fields_Some_iff) simp
  have "valid_date \<lparr>year = py_int y, month = py_int m, day = py_int d\<rparr>"
    using k mk_date_iff by blast
  with f t show "birthday_text s" by (simp add: birthday_text_def)
next
  assume "birthday_text s"
  then obtain d m y where f: "fields s = Some (d, m, y)"
    and t: "day_text d" "month_text m" "year_text y"
    and v: "valid_date \<lparr>year = py_int y, month = py_int m, day = py_int d\<rparr>"
    by (auto simp: birthday_text_def split: option.splits)
  from f have s: "s = d @ ''.'' @ m @ ''.'' @ y" by (simp only: fields_Some_iff)
  from v obtain dt where "mk_date (py_int y) (py_int m) (py_int d) = Inr dt"
    using mk_date_iff by blast
  then have "strptime s = Inr dt" unfolding s using strptime_of_fields [OF t] by simp
  then show "\<exists>dt. strptime s = Inr dt" by blast
qed

lemma Birthday_eq:
  "Birthday raw =
     (if birthday_text raw then Inr raw else Inl (ValueError ''Invalid date format. Use DD.MM.YYYY''))"
proof (cases "strptime raw")
  case (Inl e)
  then have "\<not> birthday_text raw" using strptime_succeeds_iff [of raw] by simp
  moreover from Inl obtain msg where "e = ValueError msg" using strptime_Inl by blast
  ultimately show ?thesis using Inl by (simp add: Birthday_def)
next
  case (Inr dt)
  then have "birthday_text raw" using strptime_succeeds_iff [of raw] by blast
  with Inr show ?thesis by (simp add: Birthday_def)
qed

lemma char_eq_iff_nat: "a = c \<longleftrightarrow> (of_char a :: nat) = of_char c"
  by (simp add: of_char_eq_iff)

lemma py_int_two_digits:
  "ascii_digit a \<Longrightarrow> py_int [a, b] = 10 * digit_val a + digit_val b"
  by (auto simp: py_int_def ascii_digit_def in_range_def)

lemma days_in_month_le_31: "1 \<le> m \<Longrightarrow> m \<le> 12 \<Longrightarrow> days_in_month y m \<le> 31"
proof -
  assume "1 \<le> m" "m \<le> 12"
  then have "m = 1 \<or> m = 2 \<or> m = 3 \<or> m = 4 \<or> m = 5 \<or> m = 6 \<or> m = 7 \<or> m = 8 \<or> m = 9 \<or> m = 10 \<or> m = 11 \<or> m = 12"
    by arith
  then show ?thesis
    by (elim disjE) (simp_all add: days_in_month_def DAYS_IN_MONTH_def)
qed

lemma ascii_digit_re_digit: "ascii_digit c \<Longrightarrow> re_digit c"
  by (simp add: ascii_digit_def re_digit_def)

lemma two_digit_day_text:
  assumes "ascii_digit a" and "ascii_digit b" and "1 \<le> py_int [a, b]" and "py_int [a, b] \<le> 31"
  shows "day_text [a, b]"
proof -
  define na where "na = (of_char a :: nat)"
  define nb where "nb = (of_char b :: nat)"
  have ra: "48 \<le> na" "na \<le> 57" and rb: "48 \<le> nb" "nb \<le> 57"
    using assms(1,2) by (simp_all add: ascii_digit_def in_range_def na_def nb_def)
  have v: "py_int [a, b] = 10 * (int na - 48) + (int nb - 48)"
    using py_int_two_digits [OF assms(1), of b] by (simp add: digit_val_def na_def nb_def)
  have c: "(na = 51 \<and> 48 \<le> nb \<and> nb \<le> 49) \<or> (49 \<le> na \<and> na \<le> 50) \<or> (na = 48 \<and> 49 \<le> nb)"
    using assms(3,4) ra rb unfolding v by arith
  have e3: "a = CHR ''3'' \<longleftrightarrow> na = 51" and e0: "a = CHR ''0'' \<longleftrightarrow> na = 48"
    unfolding na_def by (simp_all add: char_eq_iff_nat)
  show ?thesis
    unfolding day_text_cases using c rb ra assms(2)
    by (auto simp: in_range_def re_digit_def e3 e0 na_def [symmetric] nb_def [symmetric])
qed

lemma two_digit_month_text:
  assumes "ascii_digit a" and "ascii_digit b" and "1 \<le> py_int [a, b]" and "py_int [a, b] \<le> 12"
  shows "month_text [a, b]"
proof -
  define na where "na = (of_char a :: nat)"
  define nb where "nb = (of_char b :: nat)"
  have ra: "48 \<le> na" "na \<le> 57" and rb: "48 \<le> nb" "nb \<le> 57"
    using assms(1,2) by (simp_all add: ascii_digit_def in_range_def na_def nb_def)
  have v: "py_int [a, b] = 10 * (int na - 48) + (int nb - 48)"
    using py_int_two_digits [OF assms(1), of b] by (simp add: digit_val_def na_def nb_def)
  have c: "(na = 49 \<and> 48 \<le> nb \<and> nb \<le> 50) \<or> (na = 48 \<and> 49 \<le> nb)"
    using assms(3,4) ra rb unfolding v by arith
  have e1: "a = CHR ''1'' \<longleftrightarrow> na = 49" and e0: "a = CHR ''0'' \<longleftrightarrow> na = 48"
    unfolding na_def by (simp_all add: char_eq_iff_nat)
  show ?thesis
    unfolding month_text_cases using c rb
    by (auto simp: in_range_def e1 e0 na_def [symmetric] nb_def [symmetric])
qed

lemma length_2_cases: "length xs = 2 \<Longrightarrow> \<exists>a b. xs = [a, b]"
  by (cases xs; cases "tl xs") auto

lemma length_4_cases: "length xs = 4 \<Longrightarrow> \<exists>a b c d. xs = [a, b, c, d]"
proof -
  assume l: "length xs = 4"
  then obtain a r1 where 1: "xs = a # r1" by (cases xs) auto
  with l obtain b r2 where 2: "r1 = b # r2" by (cases r1) auto
  with 1 l obtain c r3 where 3: "r2 = c # r3" by (cases r2) auto
  with 1 2 l obtain d r4 where 4: "r3 = d # r4" by (cases r3) auto
  with 1 2 3 l have "r4 = []" by simp
  with 1 2 3 4 show ?thesis by blast
qed

lemma DD_MM_YYYY_accepted:
  assumes "matches_DD_MM_YYYY raw" and "real_date_text raw"
  shows "birthday_text raw"
proof -
  from assms(1) obtain d m y where f: "fields raw = Some (d, m, y)"
    and d: "length d = 2" "list_all ascii_digit d"
    and m: "length m = 2" "list_all ascii_digit m"
    and y: "length y = 4" "list_all ascii_digit y"
    by (auto simp: matches_DD_MM_YYYY_def split: option.splits)
  from assms(2) f have v: "valid_date \<lparr>year = py_int y, month = py_int m, day = py_int d\<rparr>"
    by (simp add: real_date_text_def)
  from v have vm: "1 \<le> py_int m" "py_int m \<le> 12" by (simp_all add: valid_date_def)
  from v have vd: "1 \<le> py_int d" "py_int d \<le> days_in_month (py_int y) (py_int m)"
    by (simp_all add: valid_date_def)
  from vd(2) days_in_month_le_31 [OF vm, of "py_int y"] have vd31: "py_int d \<le> 31" by simp
  from d(1) obtain a b where dab: "d = [a, b]" using length_2_cases by blast
  from m(1) obtain a' b' where mab: "m = [a', b']" using length_2_cases by blast
  from y(1) obtain y1 y2 y3 y4 where yab: "y = [y1, y2, y3, y4]" using length_4_cases by blast
  have dt: "day_text d"
    unfolding dab using d(2) vd(1) vd31 unfolding dab by (intro two_digit_day_text) simp_all
  have mt: "month_text m"
    unfolding mab using m(2) vm unfolding mab by (intro two_digit_month_text) simp_all
  have yt: "year_text y" using y(2) unfolding yab year_text_cases by (simp add: ascii_digit_re_digit)
  show ?thesis using f dt mt yt v by (simp add: birthday_text_def)
qed

text \<open>
  Claim C5, as amended. \<open>Birthday\<close> succeeds, and stores the string as it is, if and only
  if the string is a day, a dot, a month, a dot and a year as the pattern of \<open>strptime\<close>
  reads them, and the three numbers that \<open>int\<close> reads from them are a date of the Gregorian
  calendar in the years 1 to 9999. The day is an ASCII digit 1-9, alone or after an ASCII
  0 or a blank, or 1 or 2 followed by a decimal digit, or 3 followed by 0 or 1. The month is
  an ASCII digit 1-9, alone or after an ASCII 0, or 1 followed by 0, 1 or 2. The year is four
  decimal digits. A decimal digit is what \<open>\d\<close> matches. Every other string raises the
  ValueError of the validator. Every string of the form DD.MM.YYYY that is such a date is
  accepted.
\<close>

theorem Birthday_succeeds_iff:
  "Birthday raw =
     (if birthday_text raw then Inr raw else Inl (ValueError ''Invalid date format. Use DD.MM.YYYY'')) \<and>
   (matches_DD_MM_YYYY raw \<and> real_date_text raw \<longrightarrow> Birthday raw = Inr raw)"
  using DD_MM_YYYY_accepted [of raw] by (simp add: Birthday_eq)

text \<open>
  The theorem on 29.02.2024 and 1.2.2024, which are accepted, and on 29.02.2023,
  31.04.2023 and 2024-02-29, which are not.
\<close>

theorem Birthday_succeeds_iff_witness:
  "matches_DD_MM_YYYY ''29.02.2024'' \<and> real_date_text ''29.02.2024'' \<and>
   Birthday ''29.02.2024'' = Inr ''29.02.2024'' \<and>
   birthday_text ''1.2.2024'' \<and> Birthday ''1.2.2024'' = Inr ''1.2.2024'' \<and>
   \<not> birthday_text ''29.02.2023'' \<and>
   Birthday ''29.02.2023'' = Inl (ValueError ''Invalid date format. Use DD.MM.YYYY'') \<and>
   \<not> birthday_text ''31.04.2023'' \<and>
   Birthday ''31.04.2023'' = Inl (ValueError ''Invalid date format. Use DD.MM.YYYY'') \<and>
   \<not> birthday_text ''2024-02-29'' \<and>
   Birthday ''2024-02-29'' = Inl (ValueError ''Invalid date format. Use DD.MM.YYYY'')"
proof -
  have a1: "matches_DD_MM_YYYY ''29.02.2024''" by code_simp
  have a2: "real_date_text ''29.02.2024''" by code_simp
  have b: "birthday_text ''1.2.2024''" by code_simp
  have c: "\<not> birthday_text ''29.02.2023''" by code_simp
  have d: "\<not> birthday_text ''31.04.2023''" by code_simp
  have e: "\<not> birthday_text ''2024-02-29''" by code_simp
  have a': "Birthday ''29.02.2024'' = Inr ''29.02.2024''"
    by (rule Birthday_succeeds_iff [of "''29.02.2024''", THEN conjunct2, rule_format, OF conjI [OF a1 a2]])
  have b': "Birthday ''1.2.2024'' = Inr ''1.2.2024''"
    using b by (simp only: Birthday_succeeds_iff [of "''1.2.2024''", THEN conjunct1] if_True)
  have c': "Birthday ''29.02.2023'' = Inl (ValueError ''Invalid date format. Use DD.MM.YYYY'')"
    using c by (simp only: Birthday_succeeds_iff [of "''29.02.2023''", THEN conjunct1] if_False)
  have d': "Birthday ''31.04.2023'' = Inl (ValueError ''Invalid date format. Use DD.MM.YYYY'')"
    using d by (simp only: Birthday_succeeds_iff [of "''31.04.2023''", THEN conjunct1] if_False)
  have e': "Birthday ''2024-02-29'' = Inl (ValueError ''Invalid date format. Use DD.MM.YYYY'')"
    using e by (simp only: Birthday_succeeds_iff [of "''2024-02-29''", THEN conjunct1] if_False)
  show ?thesis
    by (intro conjI a1 a2 b c d e a' b' c' d' e')
qed

text \<open>
  Claim C5 as stated fails: 1.2.2024 is accepted and stored, and has neither a two-digit
  day nor a two-digit month.
\<close>

theorem Birthday_short_fields_counterexample:
  "Birthday ''1.2.2024'' = Inr ''1.2.2024'' \<and> \<not> matches_DD_MM_YYYY ''1.2.2024''"
proof -
  have "birthday_text ''1.2.2024''" by code_simp
  then have a: "Birthday ''1.2.2024'' = Inr ''1.2.2024''" by (simp only: Birthday_eq if_True)
  have b: "\<not> matches_DD_MM_YYYY ''1.2.2024''"
    by (simp add: matches_DD_MM_YYYY_def fields_def)
  show ?thesis by (intro conjI a b)
qed

section \<open>Record.__str__\<close>

lemma split_at_last:
  assumes "x \<notin> set ys" and "x \<notin> set ys'" and "xs @ x # ys = xs' @ x # ys'"
  shows "xs = xs' \<and> ys = ys'"
proof -
  from assms(3) have "rev (xs @ x # ys) = rev (xs' @ x # ys')" by (rule arg_cong)
  then have "rev ys @ x # rev xs = rev ys' @ x # rev xs'" by simp
  moreover have "x \<notin> set (rev ys)" "x \<notin> set (rev ys')" using assms(1,2) by simp_all
  ultimately have "rev ys = rev ys' \<and> rev xs = rev xs'" by (intro split_at_first)
  then show ?thesis by simp
qed

lemma join_Cons: "join sep (x # xs) = x @ (if xs = [] then [] else sep @ join sep xs)"
  by (cases xs) simp_all

lemma set_join: "set (join sep xs) \<subseteq> set sep \<union> \<Union> (set ` set xs)"
  by (induction sep xs rule: join.induct) auto

lemma isdigit_char_no_comma: "isdigit_char c \<Longrightarrow> c \<noteq> CHR '',''"
  by (auto simp: isdigit_char_def ascii_digit_def in_range_def)

lemma phones_text_no_comma:
  assumes "record_inv r"
  shows "CHR '','' \<notin> set (join ''; '' (phones r))"
proof
  assume "CHR '','' \<in> set (join ''; '' (phones r))"
  then have "CHR '','' \<in> set ''; '' \<union> \<Union> (set ` set (phones r))" using set_join by blast
  then obtain p where p: "p \<in> set (phones r)" "CHR '','' \<in> set p" by auto
  from assms p(1) have "list_all isdigit_char p" by (auto simp: record_inv_def phone_ok_def list_all_iff)
  with p(2) have "isdigit_char (CHR '','')" by (auto simp: list_all_iff)
  then show False using isdigit_char_no_comma by blast
qed

lemma join_inject:
  "\<forall>p\<in>set ps. length p = n \<Longrightarrow> \<forall>q\<in>set qs. length q = n \<Longrightarrow> 0 < n \<Longrightarrow>
   join sep ps = join sep qs \<Longrightarrow> sep \<noteq> [] \<Longrightarrow> ps = qs"
proof (induction ps arbitrary: qs)
  case Nil
  show ?case
  proof (cases qs)
    case Nil
    then show ?thesis by simp
  next
    case (Cons q qs')
    have "join sep qs = q @ (if qs' = [] then [] else sep @ join sep qs')"
      unfolding Cons by (rule join_Cons)
    with Nil.prems(4) have "q = []" by simp
    moreover from Nil.prems(2) Cons have "length q = n" by simp
    ultimately show ?thesis using Nil.prems(3) by simp
  qed
next
  case (Cons p ps)
  show ?case
  proof (cases qs)
    case Nil
    have "join sep (p # ps) = p @ (if ps = [] then [] else sep @ join sep ps)"
      by (rule join_Cons)
    with Cons.prems(4) Nil have "p = []" by simp
    moreover from Cons.prems(1) have "length p = n" by simp
    ultimately show ?thesis using Cons.prems(3) by simp
  next
    case c: (Cons q qs')
    from Cons.prems c have l: "length p = length q" by simp
    from Cons.prems(4) c have
      "p @ (if ps = [] then [] else sep @ join sep ps) = q @ (if qs' = [] then [] else sep @ join sep qs')"
      by (simp only: join_Cons)
    with l have pq: "p = q"
      and t: "(if ps = [] then [] else sep @ join sep ps) = (if qs' = [] then [] else sep @ join sep qs')"
      by simp_all
    have "ps = qs'"
    proof (cases "ps = []")
      case True
      with t Cons.prems(5) show ?thesis by (auto split: if_splits)
    next
      case False
      with t Cons.prems(5) have ne: "qs' \<noteq> []" and j: "join sep ps = join sep qs'"
        by (auto split: if_splits)
      from Cons.prems c have "\<forall>p\<in>set ps. length p = n" "\<forall>q\<in>set qs'. length q = n" by simp_all
      then show ?thesis using Cons.prems(3) j Cons.prems(5) by (rule Cons.IH)
    qed
    with pq c show ?thesis by simp
  qed
qed

lemma text_no_comma_aux:
  "day_text d \<Longrightarrow> CHR '','' \<notin> set d"
  "month_text m \<Longrightarrow> CHR '','' \<notin> set m"
  "year_text y \<Longrightarrow> CHR '','' \<notin> set y"
  unfolding day_text_cases month_text_cases year_text_cases
  by (auto simp: in_range_def re_digit_def)

lemma birthday_text_no_comma:
  assumes "birthday_text v"
  shows "CHR '','' \<notin> set v"
proof -
  from assms obtain d m y where f: "fields v = Some (d, m, y)"
    and t: "day_text d" "month_text m" "year_text y"
    by (auto simp: birthday_text_def split: option.splits)
  from f have "v = d @ ''.'' @ m @ ''.'' @ y" by (simp only: fields_Some_iff)
  then show ?thesis using text_no_comma_aux(1) [OF t(1)] text_no_comma_aux(2) [OF t(2)]
      text_no_comma_aux(3) [OF t(3)] by simp
qed

lemma not_birthday_text_None: "\<not> birthday_text ''None''"
  by (simp add: birthday_text_def fields_def)

lemma birthday_str_no_comma: "birthday_ok r \<Longrightarrow> CHR '','' \<notin> set (birthday_str r)"
  by (auto simp: birthday_ok_def birthday_str_def split: option.splits dest: birthday_text_no_comma)

lemma birthday_str_inject:
  "birthday_ok r1 \<Longrightarrow> birthday_ok r2 \<Longrightarrow> birthday_str r1 = birthday_str r2 \<Longrightarrow> birthday r1 = birthday r2"
  using not_birthday_text_None
  by (auto simp: birthday_ok_def birthday_str_def split: option.splits)

lemma str_Record_split:
  "str_Record r =
     (''Contact name: '' @ name r @ CHR '','' # ('' phones: '' @ join ''; '' (phones r))) @
     CHR '','' # ('' birthday: '' @ birthday_str r)"
  by (simp add: str_Record_def birthday_str_def)

lemma edit_phone_from_birthday:
  "birthday (snd (edit_phone_from i self old_phone new_phone)) = birthday self"
proof (induction i self old_phone new_phone rule: edit_phone_from.induct)
  case (1 i self old_phone new_phone)
  show ?case
  proof (cases "i < length (phones self) \<and> phones self ! i \<noteq> old_phone")
    case True
    then have "edit_phone_from i self old_phone new_phone = edit_phone_from (Suc i) self old_phone new_phone"
      by (subst edit_phone_from.simps) simp
    with True "1.IH" show ?thesis by simp
  next
    case False
    then show ?thesis
      by (subst edit_phone_from.simps) (auto split: sum.splits)
  qed
qed

lemma birthday_ok_preserved:
  "birthday_ok (Record_init n)"
  "birthday_ok r \<Longrightarrow> birthday_ok (snd (add_phone r raw))"
  "birthday_ok r \<Longrightarrow> birthday_ok (snd (edit_phone r old_phone new_phone))"
  "birthday_ok r \<Longrightarrow> birthday_ok (remove_phone r raw)"
  "birthday_ok r \<Longrightarrow> birthday_ok (snd (add_birthday r b))"
  by (auto simp: birthday_ok_def Record_init_def add_phone_def edit_phone_def remove_phone_def
      add_birthday_def edit_phone_from_birthday Birthday_eq split: sum.splits if_splits)

text \<open>
  Claim C9. Two records whose phones and birthday are values the validators accept, and
  which \<open>__str__\<close> prints as the same text, are the same record: the text determines the
  name, the sequence of phones and the birthday, whatever the name is.
\<close>

theorem str_Record_inject:
  assumes "record_inv r1" and "birthday_ok r1" and "record_inv r2" and "birthday_ok r2"
    and "str_Record r1 = str_Record r2"
  shows "r1 = r2"
proof -
  define comma where "comma = CHR '',''"
  define A1 where "A1 = ''Contact name: '' @ name r1"
  define A2 where "A2 = ''Contact name: '' @ name r2"
  define P1 where "P1 = '' phones: '' @ join ''; '' (phones r1)"
  define P2 where "P2 = '' phones: '' @ join ''; '' (phones r2)"
  define B1 where "B1 = '' birthday: '' @ birthday_str r1"
  define B2 where "B2 = '' birthday: '' @ birthday_str r2"
  have s1: "str_Record r1 = (A1 @ comma # P1) @ comma # B1"
    unfolding A1_def P1_def B1_def comma_def str_Record_split by simp
  have s2: "str_Record r2 = (A2 @ comma # P2) @ comma # B2"
    unfolding A2_def P2_def B2_def comma_def str_Record_split by simp
  have nb: "comma \<notin> set B1" "comma \<notin> set B2"
    using birthday_str_no_comma [OF assms(2)] birthday_str_no_comma [OF assms(4)]
    by (simp_all add: B1_def B2_def comma_def)
  have np: "comma \<notin> set P1" "comma \<notin> set P2"
    using phones_text_no_comma [OF assms(1)] phones_text_no_comma [OF assms(3)]
    by (simp_all add: P1_def P2_def comma_def)
  have e: "(A1 @ comma # P1) @ comma # B1 = (A2 @ comma # P2) @ comma # B2"
    using assms(5) unfolding s1 s2 .
  have 1: "A1 @ comma # P1 = A2 @ comma # P2 \<and> B1 = B2"
    using nb e by (rule split_at_last)
  then have "A1 @ comma # P1 = A2 @ comma # P2" by (rule conjunct1)
  with np have 2: "A1 = A2 \<and> P1 = P2" by (rule split_at_last)
  from 2 have n: "name r1 = name r2" by (simp add: A1_def A2_def)
  from 2 have j: "join ''; '' (phones r1) = join ''; '' (phones r2)" by (simp add: P1_def P2_def)
  from 1 have b: "birthday_str r1 = birthday_str r2" by (simp add: B1_def B2_def)
  have l1: "\<forall>p\<in>set (phones r1). length p = 10"
    using assms(1) by (auto simp: record_inv_def phone_ok_def list_all_iff)
  have l2: "\<forall>p\<in>set (phones r2). length p = 10"
    using assms(3) by (auto simp: record_inv_def phone_ok_def list_all_iff)
  have p: "phones r1 = phones r2" using l1 l2 _ j by (rule join_inject) simp_all
  have bd: "birthday r1 = birthday r2" using assms(2,4) b by (rule birthday_str_inject)
  show ?thesis using n p bd by simp
qed

text \<open>
  The theorem on a record whose name contains the separator of the phones: the record built
  by the methods is the one whose text it shares.
\<close>

theorem str_Record_inject_witness:
  "record_inv \<lparr>name = ''Ann, phones: '', phones = [''0123456789'', ''9876543210''], birthday = Some ''1.2.2000''\<rparr> \<and>
   birthday_ok \<lparr>name = ''Ann, phones: '', phones = [''0123456789'', ''9876543210''], birthday = Some ''1.2.2000''\<rparr> \<and>
   str_Record \<lparr>name = ''Ann, phones: '', phones = [''0123456789'', ''9876543210''], birthday = Some ''1.2.2000''\<rparr> =
     ''Contact name: Ann, phones: , phones: 0123456789; 9876543210, birthday: 1.2.2000'' \<and>
   str_Record (snd (add_birthday (snd (add_phone (snd (add_phone (Record_init ''Ann, phones: '')
       ''0123456789'')) ''9876543210'')) ''1.2.2000'')) =
     ''Contact name: Ann, phones: , phones: 0123456789; 9876543210, birthday: 1.2.2000'' \<and>
   snd (add_birthday (snd (add_phone (snd (add_phone (Record_init ''Ann, phones: '')
       ''0123456789'')) ''9876543210'')) ''1.2.2000'') =
     \<lparr>name = ''Ann, phones: '', phones = [''0123456789'', ''9876543210''], birthday = Some ''1.2.2000''\<rparr>"
proof -
  let ?r1 = "\<lparr>name = ''Ann, phones: '', phones = [''0123456789'', ''9876543210''], birthday = Some ''1.2.2000''\<rparr>"
  let ?r2 = "snd (add_birthday (snd (add_phone (snd (add_phone (Record_init ''Ann, phones: '')
       ''0123456789'')) ''9876543210'')) ''1.2.2000'')"
  let ?s = "''Contact name: Ann, phones: , phones: 0123456789; 9876543210, birthday: 1.2.2000''"
  have i1: "record_inv ?r1" by code_simp
  have b1: "birthday_ok ?r1" by code_simp
  have i2: "record_inv ?r2"
    by (intro record_inv_add_birthday record_inv_add_phone record_inv_init)
  have b2: "birthday_ok ?r2"
    by (intro birthday_ok_preserved)
  have s1: "str_Record ?r1 = ?s" by code_simp
  have s2: "str_Record ?r2 = ?s" by code_simp
  have e: "str_Record ?r2 = str_Record ?r1" unfolding s1 s2 ..
  have "?r2 = ?r1" using i2 b2 i1 b1 e by (rule str_Record_inject)
  then show ?thesis using i1 b1 s1 s2 by (intro conjI)
qed

end
